theory Spec2Isabelle
  imports Complex_Main "HOL-Library.Option_ord"
begin

section \<open>Errors and results\<close>

text \<open>
  Every exception the two modules can raise is a value of \<open>error\<close>:
  \<^item> \<open>InvalidActionIndex a\<close>: \<^verbatim>\<open>ValueError("Invalid action index: {a}. Must be between 0 and 8.")\<close>
  \<^item> \<open>CellOccupied row col\<close>: \<^verbatim>\<open>ValueError("Invalid action: Cell ({row}, {col}) is already occupied.")\<close>
  \<^item> \<open>ExplorationCoefNegative\<close>: \<^verbatim>\<open>ValueError("exploration_coef must be greater than 0")\<close>
  \<^item> \<open>ParentNotVisited\<close>: \<^verbatim>\<open>AssertionError('Parent node n_visits must be > 0.')\<close>
  \<^item> \<open>RolloutNoAction\<close>: \<^verbatim>\<open>AssertionError("Rollout: got no possible action in non-terminal state")\<close>
  \<^item> \<open>ZeroDivisionError\<close>: Python's division of a float by the integer 0
  \<^item> \<open>EmptyChoice\<close>: the \<^verbatim>\<open>ValueError\<close> of \<^verbatim>\<open>np.random.choice\<close> on an empty sequence
  \<^item> \<open>EmptyReduction\<close>: the \<^verbatim>\<open>ValueError\<close> of \<^verbatim>\<open>min\<close> and \<^verbatim>\<open>argmin\<close> on an empty array

  A computation that may loop forever has a result of type \<open>'a result\<close>: \<open>None\<close> when it
  does not return, \<open>Some (Inl e)\<close> when it raises \<open>e\<close>, \<open>Some (Inr x)\<close> when it returns \<open>x\<close>.
\<close>

datatype error =
    InvalidActionIndex int
  | CellOccupied int int
  | ExplorationCoefNegative
  | ParentNotVisited
  | RolloutNoAction
  | ZeroDivisionError
  | EmptyChoice
  | EmptyReduction

type_synonym 'a result = "(error + 'a) option"

definition bind_result :: "'a result \<Rightarrow> ('a \<Rightarrow> 'b result) \<Rightarrow> 'b result" where
  "bind_result m f =
     (case m of None \<Rightarrow> None | Some (Inl e) \<Rightarrow> Some (Inl e) | Some (Inr x) \<Rightarrow> f x)"


section \<open>Floating-point numbers\<close>

text \<open>
  Python floats and \<^verbatim>\<open>np.float64\<close> are IEEE doubles, \<^verbatim>\<open>np.float32\<close> values are IEEE
  singles. A finite float is modelled as the real number it denotes, and every operation the
  engine performs on floats is a field of \<open>float_ops\<close>, which gives the float that the
  operation returns: the engine is verified for whatever these operations compute.
  Integers converted to floats are taken as exact (they are visit counts). Infinities and
  NaN are not modelled, apart from the score \<^verbatim>\<open>-np.inf\<close> of selection.
  \<^item> \<open>fadd\<close>, \<open>fsub\<close>, \<open>fmul\<close>, \<open>fdiv\<close>: \<^verbatim>\<open>+\<close>, \<^verbatim>\<open>-\<close>, \<^verbatim>\<open>*\<close>, \<^verbatim>\<open>/\<close> on doubles
  \<^item> \<open>fsqrt\<close>, \<open>flog\<close>: \<^verbatim>\<open>np.sqrt\<close>, \<^verbatim>\<open>np.log\<close> on doubles
  \<^item> \<open>f32\<close>: the conversion of a double to a single, as done by a store into an array of
    \<^verbatim>\<open>dtype=np.float32\<close>
\<close>

record float_ops =
  fadd :: "real \<Rightarrow> real \<Rightarrow> real"
  fsub :: "real \<Rightarrow> real \<Rightarrow> real"
  fmul :: "real \<Rightarrow> real \<Rightarrow> real"
  fdiv :: "real \<Rightarrow> real \<Rightarrow> real"
  fsqrt :: "real \<Rightarrow> real"
  flog :: "real \<Rightarrow> real"
  f32 :: "real \<Rightarrow> real"

text \<open>
  The IEEE operations: the exact result rounded to the nearest number with \<open>p\<close> significant
  bits, ties to the even one (53 bits for a double, 24 for a single). The range of the
  exponent is taken as unbounded: overflow and subnormal numbers are left out. That
  \<^verbatim>\<open>np.log\<close> rounds correctly is an assumption about the C library; the examples below use
  it only for \<open>ln 1 = 0\<close>.
\<close>

definition round_even :: "real \<Rightarrow> int" where
  "round_even x =
     (let f = \<lfloor>x\<rfloor> in
      if x - of_int f < 1 / 2 then f
      else if 1 / 2 < x - of_int f then f + 1
      else if even f then f else f + 1)"

definition round_float :: "nat \<Rightarrow> real \<Rightarrow> real" where
  "round_float p x =
     (if x = 0 then 0
      else
        let e = \<lfloor>log 2 \<bar>x\<bar>\<rfloor> - int p + 1 in
        of_int (round_even (x / 2 powr of_int e)) * 2 powr of_int e)"

definition ieee :: float_ops where
  "ieee =
     \<lparr>fadd = (\<lambda>a b. round_float 53 (a + b)),
      fsub = (\<lambda>a b. round_float 53 (a - b)),
      fmul = (\<lambda>a b. round_float 53 (a * b)),
      fdiv = (\<lambda>a b. round_float 53 (a / b)),
      fsqrt = (\<lambda>a. round_float 53 (sqrt a)),
      flog = (\<lambda>a. round_float 53 (ln a)),
      f32 = round_float 24\<rparr>"


section \<open>The game interface (abstract\_game.py)\<close>

text \<open>
  \<^verbatim>\<open>TwoPlayerGame\<close> is the pair of operations the engine calls. Players are the integers
  0 and 1, actions are integers, the state is opaque. The reward is a number that the
  engine uses in float arithmetic.
\<close>

record 's game =
  get_possible_actions :: "int \<Rightarrow> 's \<Rightarrow> int list"
  make_transition :: "int \<Rightarrow> int \<Rightarrow> 's \<Rightarrow> error + ('s \<times> real \<times> bool)"


section \<open>Tic Tac Toe (tic\_tac\_toe.py)\<close>

text \<open>
  The state is a 3x3 grid: a Python list object holding references to three row objects,
  each a list of three cells; 0 is empty, 1 is player 0, 2 is player 1.
  \<^verbatim>\<open>new_state[row][col] = ...\<close> writes into a row object, so the rows live on a heap: the
  heap maps an address to the cells of the row object stored there, and a grid is the list
  of its rows' addresses (the outer list is never written to).
\<close>

type_synonym board = "int list list"
type_synonym addr = nat
type_synonym heap = "int list list"
type_synonym grid = "addr list"

text \<open>The cells of a grid, row by row.\<close>

definition read_grid :: "heap \<Rightarrow> grid \<Rightarrow> board" where
  "read_grid h state = map (\<lambda>a. h ! a) state"

text \<open>
  The game methods only read the state, except for \<^verbatim>\<open>make_transition\<close>. They take the heap
  and the grid.
\<close>

definition get_possible_actions_heap :: "heap \<Rightarrow> int \<Rightarrow> grid \<Rightarrow> int list" where
  "get_possible_actions_heap h player_idx state =
     concat (map (\<lambda>row. concat (map (\<lambda>col.
        if h ! (state ! row) ! col = 0 then [int (row * 3 + col)] else []) [0..<3])) [0..<3])"

definition check_victory :: "board \<Rightarrow> int \<Rightarrow> bool" where
  "check_victory state player_marker =
     (list_ex (\<lambda>row. list_all (\<lambda>cell. cell = player_marker) row) state
      \<or> list_ex (\<lambda>col. list_all (\<lambda>row. state ! row ! col = player_marker) [0..<3]) [0..<3]
      \<or> list_all (\<lambda>i. state ! i ! i = player_marker) [0..<3]
      \<or> list_all (\<lambda>i. state ! i ! (2 - i) = player_marker) [0..<3])"

definition is_draw :: "board \<Rightarrow> bool" where
  "is_draw state = list_all (\<lambda>row. list_all (\<lambda>cell. cell \<noteq> 0) row) state"

text \<open>
  \<^verbatim>\<open>copy.deepcopy\<close> allocates a new object for every row object it meets for the first
  time and keeps a memo of the copies made, so rows shared in the original stay shared in
  the copy.
\<close>

fun deepcopy_rows :: "heap \<Rightarrow> (addr \<times> addr) list \<Rightarrow> grid \<Rightarrow> heap \<times> grid" where
  "deepcopy_rows h memo [] = (h, [])"
| "deepcopy_rows h memo (a # as) =
     (case map_of memo a of
        Some a' \<Rightarrow> (let (h', as') = deepcopy_rows h memo as in (h', a' # as'))
      | None \<Rightarrow>
          (let a' = length h;
               (h', as') = deepcopy_rows (h @ [h ! a]) ((a, a') # memo) as
           in (h', a' # as')))"

definition deepcopy :: "heap \<Rightarrow> grid \<Rightarrow> heap \<times> grid" where
  "deepcopy h state = deepcopy_rows h [] state"

text \<open>\<^verbatim>\<open>make_transition\<close> returns the heap it leaves behind and its result.\<close>

definition make_transition_heap ::
  "heap \<Rightarrow> int \<Rightarrow> int \<Rightarrow> grid \<Rightarrow> heap \<times> (error + (grid \<times> real \<times> bool))" where
  "make_transition_heap h player_idx action_idx state =
     (let row = action_idx div 3; col = action_idx mod 3 in
      if \<not> (0 \<le> action_idx \<and> action_idx \<le> 8) then (h, Inl (InvalidActionIndex action_idx))
      else if h ! (state ! nat row) ! nat col \<noteq> 0 then (h, Inl (CellOccupied row col))
      else
        let (h1, new_state) = deepcopy h state;
            h2 = h1[new_state ! nat row := (h1 ! (new_state ! nat row))[nat col := player_idx + 1]]
        in
        if check_victory (read_grid h2 new_state) (player_idx + 1)
        then (h2, Inr (new_state, if player_idx = 0 then 1 else - 1, True))
        else if is_draw (read_grid h2 new_state) then (h2, Inr (new_state, 0, True))
        else (h2, Inr (new_state, 0, False)))"

text \<open>
  The game as the engine sees it. The engine keeps states as opaque values and never
  writes to them, and \<^verbatim>\<open>make_transition\<close> writes only to the copy it has just made, so a
  state of the engine is a grid together with the heap that holds its rows.
\<close>

definition TicTacToe_get_possible_actions :: "int \<Rightarrow> heap \<times> grid \<Rightarrow> int list" where
  "TicTacToe_get_possible_actions player_idx hs =
     get_possible_actions_heap (fst hs) player_idx (snd hs)"

definition TicTacToe_make_transition ::
  "int \<Rightarrow> int \<Rightarrow> heap \<times> grid \<Rightarrow> error + ((heap \<times> grid) \<times> real \<times> bool)" where
  "TicTacToe_make_transition player_idx action_idx hs =
     (case make_transition_heap (fst hs) player_idx action_idx (snd hs) of
        (h', Inl e) \<Rightarrow> Inl e
      | (h', Inr (new_state, reward, done)) \<Rightarrow> Inr ((h', new_state), reward, done))"

definition TicTacToe :: "(heap \<times> grid) game" where
  "TicTacToe = \<lparr>get_possible_actions = TicTacToe_get_possible_actions,
                make_transition = TicTacToe_make_transition\<rparr>"

text \<open>\<^verbatim>\<open>get_initial_state\<close>: a fresh grid of empty cells.\<close>

definition get_initial_state :: "heap \<times> grid" where
  "get_initial_state = ([[0, 0, 0], [0, 0, 0], [0, 0, 0]], [0, 1, 2])"

text \<open>The grid with the rows \<open>b\<close>, each row an object of its own.\<close>

definition grid_of :: "board \<Rightarrow> heap \<times> grid" where
  "grid_of b = (b, [0..<length b])"


section \<open>The search tree (MCTS.py)\<close>

text \<open>
  \<^verbatim>\<open>MCTSNode\<close> objects refer to each other through \<^verbatim>\<open>parent\<close> and
  \<^verbatim>\<open>children_nodes\<close> and are updated in place, so the nodes live in a store: the list of
  all node objects created so far, a node's reference being its position. The root of a
  search is at position 0. \<^verbatim>\<open>n_visits\<close> starts at 0 and is only ever incremented.
\<close>

record 's MCTSNode =
  state :: 's
  player_to_move :: int
  accumulated_value :: real
  n_visits :: nat
  actions :: "int list"
  children_nodes :: "nat list"
  parent :: "nat option"
  terminal :: bool
  terminal_reward :: real

type_synonym 's store = "'s MCTSNode list"

definition new_node :: "'s \<Rightarrow> int \<Rightarrow> nat option \<Rightarrow> bool \<Rightarrow> real \<Rightarrow> 's MCTSNode" where
  "new_node s p par t r =
     \<lparr>state = s, player_to_move = p, accumulated_value = 0, n_visits = 0, actions = [],
      children_nodes = [], parent = par, terminal = t, terminal_reward = r\<rparr>"


section \<open>The engine (MCTS.py)\<close>

text \<open>
  Randomness is an oracle \<open>rnd\<close> read at a position \<open>k\<close> that every draw advances:
  \<^verbatim>\<open>np.random.choice(xs)\<close> returns the element of \<open>xs\<close> at position
  \<open>rnd k mod length xs\<close> and raises on an empty \<open>xs\<close>.
\<close>

definition random_choice :: "(nat \<Rightarrow> nat) \<Rightarrow> nat \<Rightarrow> 'a list \<Rightarrow> error + ('a \<times> nat)" where
  "random_choice rnd k xs =
     (if xs = [] then Inl EmptyChoice else Inr (xs ! (rnd k mod length xs), Suc k))"

record 's TwoPlayerMCTS =
  game :: "'s game"
  exploration_coef :: real

text \<open>\<^verbatim>\<open>np.isclose(a, b)\<close> with its default tolerances.\<close>

definition isclose :: "real \<Rightarrow> real \<Rightarrow> bool" where
  "isclose a b = (\<bar>a - b\<bar> \<le> 1 / 10 ^ 8 + 1 / 10 ^ 5 * \<bar>b\<bar>)"

text \<open>The constructor returns the engine and the warnings it emitted.\<close>

definition init :: "'s game \<Rightarrow> real \<Rightarrow> error + ('s TwoPlayerMCTS \<times> string list)" where
  "init g coef =
     (if coef < 0 then Inl ExplorationCoefNegative
      else Inr (\<lparr>game = g, exploration_coef = coef\<rparr>,
                if isclose coef 0 then [''exploration_coef is set to 0''] else []))"

definition change_player_idx :: "int \<Rightarrow> int" where
  "change_player_idx player_idx = 1 - player_idx"

text \<open>
  A score is \<open>None\<close> for \<^verbatim>\<open>-np.inf\<close> and \<open>Some x\<close> for the single-precision number
  \<open>x\<close>; \<open>None\<close> is below every \<open>Some x\<close> in the order on \<open>option\<close>. The scores are
  stored in an array of \<^verbatim>\<open>dtype=np.float32\<close>, so each is converted to a single.
\<close>

type_synonym score = "real option"

definition action_scores ::
  "float_ops \<Rightarrow> 's TwoPlayerMCTS \<Rightarrow> 's store \<Rightarrow> nat \<Rightarrow> score list" where
  "action_scores fl self store node =
     map (\<lambda>child.
        if n_visits (store ! child) \<noteq> 0 then
          let state_action_value =
                fdiv fl (accumulated_value (store ! child)) (real (n_visits (store ! child)));
              exploration_bonus =
                fmul fl (exploration_coef self)
                  (fsqrt fl (fdiv fl (flog fl (real (n_visits (store ! node))))
                                     (real (n_visits (store ! child)))))
          in Some (f32 fl (fsub fl state_action_value exploration_bonus))
        else None)
       (children_nodes (store ! node))"

text \<open>\<^verbatim>\<open>np.where(action_scores == action_scores.min())[0]\<close>\<close>

definition best_indices :: "score list \<Rightarrow> nat list" where
  "best_indices scores = filter (\<lambda>j. scores ! j = min_list scores) [0..<length scores]"

definition select_child_node_ucb ::
  "float_ops \<Rightarrow> 's TwoPlayerMCTS \<Rightarrow> (nat \<Rightarrow> nat) \<Rightarrow> 's store \<Rightarrow> nat \<Rightarrow> nat
     \<Rightarrow> error + (nat \<times> nat)" where
  "select_child_node_ucb fl self rnd store node k =
     (if n_visits (store ! node) \<le> 0 then Inl ParentNotVisited
      else
        let scores = action_scores fl self store node in
        if scores = [] then Inl EmptyReduction
        else random_choice rnd k (best_indices scores))"

text \<open>The forward pass of \<^verbatim>\<open>run\<close>: descend while the node has children.\<close>

partial_function (option) forward_pass ::
  "float_ops \<Rightarrow> 's TwoPlayerMCTS \<Rightarrow> (nat \<Rightarrow> nat) \<Rightarrow> 's store \<Rightarrow> nat \<Rightarrow> int \<Rightarrow> nat
     \<Rightarrow> (nat \<times> int \<times> nat) result"
  where
  "forward_pass fl self rnd store node player_idx k =
     (if length (children_nodes (store ! node)) \<noteq> 0 then
        (case select_child_node_ucb fl self rnd store node k of
           Inl e \<Rightarrow> Some (Inl e)
         | Inr (next_node_idx, k') \<Rightarrow>
             forward_pass fl self rnd store (children_nodes (store ! node) ! next_node_idx)
               (change_player_idx player_idx) k')
      else Some (Inr (node, player_idx, k)))"

text \<open>The expansion loop: one child per possible action, in order.\<close>

fun make_children :: "'s game \<Rightarrow> int \<Rightarrow> nat \<Rightarrow> 's \<Rightarrow> int list \<Rightarrow> error + 's MCTSNode list" where
  "make_children g player_idx node s [] = Inr []"
| "make_children g player_idx node s (action_idx # rest) =
     (case make_transition g player_idx action_idx s of
        Inl e \<Rightarrow> Inl e
      | Inr (new_state, reward, done) \<Rightarrow>
          (case make_children g player_idx node s rest of
             Inl e \<Rightarrow> Inl e
           | Inr children \<Rightarrow>
               Inr (new_node new_state (change_player_idx player_idx) (Some node) done
                      (if done then reward else 0) # children)))"

text \<open>
  Expansion returns the store and the node to roll out. The new node objects are stored
  after the existing ones.
\<close>

definition expansion ::
  "'s TwoPlayerMCTS \<Rightarrow> (nat \<Rightarrow> nat) \<Rightarrow> 's store \<Rightarrow> nat \<Rightarrow> int \<Rightarrow> nat
     \<Rightarrow> error + ('s store \<times> nat \<times> nat)" where
  "expansion self rnd store node player_idx k =
     (if \<not> terminal (store ! node) then
        let possible_actions = get_possible_actions (game self) player_idx (state (store ! node))
        in
        (case make_children (game self) player_idx node (state (store ! node)) possible_actions of
           Inl e \<Rightarrow> Inl e
         | Inr children \<Rightarrow>
             let ids = [length store ..< length store + length children];
                 store' = (store @ children)
                   [node := (store ! node)\<lparr>children_nodes := ids, actions := possible_actions\<rparr>]
             in
             (case random_choice rnd k ids of
                Inl e \<Rightarrow> Inl e
              | Inr (node_to_rollout, k') \<Rightarrow> Inr (store', node_to_rollout, k')))
      else Inr (store, node, k))"

text \<open>One simulation of \<^verbatim>\<open>rollout\<close>: the inner \<^verbatim>\<open>while not game_finished\<close> loop.\<close>

partial_function (option) playout ::
  "'s game \<Rightarrow> (nat \<Rightarrow> nat) \<Rightarrow> int \<Rightarrow> 's \<Rightarrow> nat \<Rightarrow> (real \<times> nat) result" where
  "playout g rnd pid s k =
     (let possible_actions = get_possible_actions g pid s in
      if possible_actions = [] then Some (Inl RolloutNoAction)
      else
        (case random_choice rnd k possible_actions of
           Inl e \<Rightarrow> Some (Inl e)
         | Inr (random_action, k') \<Rightarrow>
            (case make_transition g pid random_action s of
               Inl e \<Rightarrow> Some (Inl e)
             | Inr (s', reward, done) \<Rightarrow>
                 if done then Some (Inr (reward, k'))
                 else playout g rnd (change_player_idx pid) s' k')))"

fun simulations ::
  "float_ops \<Rightarrow> 's game \<Rightarrow> (nat \<Rightarrow> nat) \<Rightarrow> int \<Rightarrow> 's \<Rightarrow> nat \<Rightarrow> real \<Rightarrow> nat
     \<Rightarrow> (real \<times> nat) result" where
  "simulations fl g rnd pid s 0 total_reward k = Some (Inr (total_reward, k))"
| "simulations fl g rnd pid s (Suc n) total_reward k =
     bind_result (playout g rnd pid s k)
       (\<lambda>(reward, k'). simulations fl g rnd pid s n (fadd fl total_reward reward) k')"

definition rollout ::
  "float_ops \<Rightarrow> 's TwoPlayerMCTS \<Rightarrow> (nat \<Rightarrow> nat) \<Rightarrow> 's MCTSNode \<Rightarrow> nat \<Rightarrow> nat
     \<Rightarrow> (real \<times> nat) result" where
  "rollout fl self rnd node n_rollout_simulations k =
     bind_result
       (simulations fl (game self) rnd (player_to_move node) (state node)
          n_rollout_simulations 0 k)
       (\<lambda>(total_reward, k').
          if n_rollout_simulations = 0 then Some (Inl ZeroDivisionError)
          else Some (Inr (fdiv fl total_reward (real n_rollout_simulations), k')))"

text \<open>The evaluation of the node to roll out.\<close>

definition evaluate ::
  "float_ops \<Rightarrow> 's TwoPlayerMCTS \<Rightarrow> (nat \<Rightarrow> nat) \<Rightarrow> 's MCTSNode \<Rightarrow> nat \<Rightarrow> nat
     \<Rightarrow> (real \<times> nat) result" where
  "evaluate fl self rnd node_to_rollout n_rollout_simulations k =
     (if \<not> terminal node_to_rollout
      then rollout fl self rnd node_to_rollout n_rollout_simulations k
      else Some (Inr (terminal_reward node_to_rollout, k)))"

text \<open>Backpropagation: the loop \<^verbatim>\<open>while node is not None\<close>.\<close>

definition visit :: "float_ops \<Rightarrow> real \<Rightarrow> 's MCTSNode \<Rightarrow> 's MCTSNode" where
  "visit fl rollout_reward node =
     node\<lparr>accumulated_value :=
            (if player_to_move node = 0 then fadd fl (accumulated_value node) rollout_reward
             else fsub fl (accumulated_value node) rollout_reward),
          n_visits := n_visits node + 1\<rparr>"

partial_function (option) backprop ::
  "float_ops \<Rightarrow> 's store \<Rightarrow> real \<Rightarrow> nat option \<Rightarrow> 's store option" where
  "backprop fl store rollout_reward node =
     (case node of
        None \<Rightarrow> Some store
      | Some i \<Rightarrow>
          backprop fl (store[i := visit fl rollout_reward (store ! i)]) rollout_reward
            (parent (store ! i)))"

text \<open>One iteration of the loop of \<^verbatim>\<open>run\<close>, on the store and the position of the oracle.\<close>

definition tree_iteration ::
  "float_ops \<Rightarrow> 's TwoPlayerMCTS \<Rightarrow> (nat \<Rightarrow> nat) \<Rightarrow> int \<Rightarrow> nat \<Rightarrow> 's store \<times> nat
     \<Rightarrow> ('s store \<times> nat) result"
  where
  "tree_iteration fl self rnd player_idx_to_move n_rollout_simulations sk =
     bind_result (forward_pass fl self rnd (fst sk) 0 player_idx_to_move (snd sk))
       (\<lambda>(node, player_idx, k1).
     bind_result (Some (expansion self rnd (fst sk) node player_idx k1))
       (\<lambda>(store1, node_to_rollout, k2).
     bind_result (evaluate fl self rnd (store1 ! node_to_rollout) n_rollout_simulations k2)
       (\<lambda>(rollout_reward, k3).
     (case backprop fl store1 rollout_reward (Some node_to_rollout) of
        None \<Rightarrow> None
      | Some store2 \<Rightarrow> Some (Inr (store2, k3))))))"

fun iterations ::
  "float_ops \<Rightarrow> 's TwoPlayerMCTS \<Rightarrow> (nat \<Rightarrow> nat) \<Rightarrow> int \<Rightarrow> nat \<Rightarrow> nat \<Rightarrow> 's store \<times> nat
     \<Rightarrow> ('s store \<times> nat) result" where
  "iterations fl self rnd p nrs 0 sk = Some (Inr sk)"
| "iterations fl self rnd p nrs (Suc n) sk =
     bind_result (tree_iteration fl self rnd p nrs sk) (iterations fl self rnd p nrs n)"

text \<open>
  \<^verbatim>\<open>run\<close> returns the root; here it returns the store, whose position 0 is the root, and
  the position of the oracle.
\<close>

definition run ::
  "float_ops \<Rightarrow> 's TwoPlayerMCTS \<Rightarrow> (nat \<Rightarrow> nat) \<Rightarrow> 's \<Rightarrow> int \<Rightarrow> nat \<Rightarrow> nat
     \<Rightarrow> ('s store \<times> nat) result" where
  "run fl self rnd s player_idx_to_move n_tree_iterations n_rollout_simulations =
     iterations fl self rnd player_idx_to_move n_rollout_simulations n_tree_iterations
       ([new_node s player_idx_to_move None False 0], 0)"

text \<open>
  The list comprehension of \<^verbatim>\<open>get_best_action\<close>: the division of a float by an integer
  raises when the integer is 0.
\<close>

fun child_values :: "float_ops \<Rightarrow> 's store \<Rightarrow> nat list \<Rightarrow> error + real list" where
  "child_values fl store [] = Inr []"
| "child_values fl store (child # rest) =
     (if n_visits (store ! child) = 0 then Inl ZeroDivisionError
      else
        (case child_values fl store rest of
           Inl e \<Rightarrow> Inl e
         | Inr scores \<Rightarrow>
             Inr (fdiv fl (accumulated_value (store ! child)) (real (n_visits (store ! child)))
                  # scores)))"

text \<open>\<^verbatim>\<open>argmin\<close>: the first position of the least element.\<close>

definition argmin :: "real list \<Rightarrow> nat" where
  "argmin scores = hd (filter (\<lambda>j. scores ! j = min_list scores) [0..<length scores])"

text \<open>\<^verbatim>\<open>get_best_action\<close> with \<^verbatim>\<open>dump_tree_to_file=False\<close>.\<close>

definition get_best_action ::
  "float_ops \<Rightarrow> 's TwoPlayerMCTS \<Rightarrow> (nat \<Rightarrow> nat) \<Rightarrow> 's \<Rightarrow> int \<Rightarrow> nat \<Rightarrow> nat \<Rightarrow> int result" where
  "get_best_action fl self rnd s player_idx n_tree_iterations n_rollout_simulations =
     bind_result (run fl self rnd s player_idx n_tree_iterations n_rollout_simulations)
       (\<lambda>(store, k).
          (case child_values fl store (children_nodes (store ! 0)) of
             Inl e \<Rightarrow> Some (Inl e)
           | Inr scores \<Rightarrow>
               if scores = [] then Some (Inl EmptyReduction)
               else Some (Inr (actions (store ! 0) ! argmin scores))))"


text \<open>
  The states at which the loop of a simulation stands: \<open>playout_visits g rnd c c'\<close> holds
  when the \<^verbatim>\<open>while\<close> loop started with player, state and oracle position \<open>c\<close> reaches its
  head with \<open>c'\<close>; \<open>rollout_visits g rnd pid s n k c'\<close> holds when \<open>n\<close> simulations from
  \<open>(pid, s)\<close> started at oracle position \<open>k\<close> reach the head of the inner loop with \<open>c'\<close>.
\<close>

inductive playout_visits ::
  "'s game \<Rightarrow> (nat \<Rightarrow> nat) \<Rightarrow> int \<times> 's \<times> nat \<Rightarrow> int \<times> 's \<times> nat \<Rightarrow> bool"
  for g rnd where
  here: "playout_visits g rnd c c"
| step: "get_possible_actions g pid s \<noteq> [] \<Longrightarrow>
         random_choice rnd k (get_possible_actions g pid s) = Inr (a, k') \<Longrightarrow>
         make_transition g pid a s = Inr (s', reward, False) \<Longrightarrow>
         playout_visits g rnd (change_player_idx pid, s', k') c \<Longrightarrow>
         playout_visits g rnd (pid, s, k) c"

inductive rollout_visits ::
  "'s game \<Rightarrow> (nat \<Rightarrow> nat) \<Rightarrow> int \<Rightarrow> 's \<Rightarrow> nat \<Rightarrow> nat \<Rightarrow> int \<times> 's \<times> nat \<Rightarrow> bool"
  for g rnd pid s where
  first: "playout_visits g rnd (pid, s, k) c \<Longrightarrow> rollout_visits g rnd pid s (Suc n) k c"
| later: "playout g rnd pid s k = Some (Inr (reward, k')) \<Longrightarrow>
          rollout_visits g rnd pid s n k' c \<Longrightarrow>
          rollout_visits g rnd pid s (Suc n) k c"

text \<open>A store for examples: a root visited once with two children, the first visited once.\<close>

definition example_store :: "(heap \<times> grid) store" where
  "example_store =
     [(new_node get_initial_state 0 None False 0)
        \<lparr>accumulated_value := 1, n_visits := 1, actions := [0, 1], children_nodes := [1, 2]\<rparr>,
      (new_node get_initial_state 1 (Some 0) False 0)\<lparr>accumulated_value := - 1, n_visits := 1\<rparr>,
      new_node get_initial_state 1 (Some 0) False 0]"







text \<open>A game for examples: every state has the one action 0, which ends the game with reward 1.\<close>

definition one_move_game :: "unit game" where
  "one_move_game = \<lparr>get_possible_actions = (\<lambda>player_idx s. [0]),
                     make_transition = (\<lambda>player_idx action_idx s. Inr (s, 1, True))\<rparr>"


section \<open>The shape of the tree\<close>

text \<open>
  \<open>on_path store i j\<close>: node \<open>j\<close> is reached from node \<open>i\<close> by following \<^verbatim>\<open>parent\<close>
  links (zero or more of them).
\<close>

inductive on_path :: "'s store \<Rightarrow> nat \<Rightarrow> nat \<Rightarrow> bool" for store where
  start: "on_path store i i"
| up: "parent (store ! i) = Some p \<Longrightarrow> on_path store p j \<Longrightarrow> on_path store i j"

text \<open>
  The properties of the stores that \<^verbatim>\<open>run\<close> builds: the root is at position 0 and is
  the only node without a parent, and a node is created after its parent
  (\<open>parents_decrease\<close>); the children of a node are nodes of the store whose parent it is
  (\<open>children_ok\<close>); every node with a parent is among the children of that parent
  (\<open>in_parent\<close>); the children of a node are distinct and as many as its actions
  (\<open>lists_ok\<close>); a terminal node has no children (\<open>terminal_leaf\<close>); a node is visited
  at most as often as its parent (\<open>visits_le\<close>).
\<close>

definition parents_decrease :: "'s store \<Rightarrow> bool" where
  "parents_decrease store =
     (store \<noteq> [] \<and> parent (store ! 0) = None
      \<and> (\<forall>i < length store. 0 < i \<longrightarrow> (\<exists>p. parent (store ! i) = Some p \<and> p < i)))"

definition children_ok :: "'s store \<Rightarrow> bool" where
  "children_ok store =
     (\<forall>i < length store. \<forall>c \<in> set (children_nodes (store ! i)).
        c < length store \<and> parent (store ! c) = Some i)"

definition in_parent :: "'s store \<Rightarrow> bool" where
  "in_parent store =
     (\<forall>i < length store. \<forall>p. parent (store ! i) = Some p \<longrightarrow>
        i \<in> set (children_nodes (store ! p)))"

definition lists_ok :: "'s store \<Rightarrow> bool" where
  "lists_ok store =
     (\<forall>i < length store. distinct (children_nodes (store ! i))
        \<and> length (actions (store ! i)) = length (children_nodes (store ! i)))"

definition terminal_leaf :: "'s store \<Rightarrow> bool" where
  "terminal_leaf store =
     (\<forall>i < length store. terminal (store ! i) \<longrightarrow> children_nodes (store ! i) = [])"

definition visits_le :: "'s store \<Rightarrow> bool" where
  "visits_le store =
     (\<forall>i < length store. \<forall>p. parent (store ! i) = Some p \<longrightarrow>
        n_visits (store ! i) \<le> n_visits (store ! p))"

definition wf_store :: "'s store \<Rightarrow> bool" where
  "wf_store store =
     (parents_decrease store \<and> children_ok store \<and> in_parent store \<and> lists_ok store
      \<and> terminal_leaf store \<and> visits_le store)"

text \<open>The store that the expansion of \<open>node\<close> builds from the new children \<open>cs\<close>.\<close>

definition expanded :: "'s store \<Rightarrow> nat \<Rightarrow> int list \<Rightarrow> 's MCTSNode list \<Rightarrow> 's store" where
  "expanded store node acts cs =
     (store @ cs)[node := (store ! node)
        \<lparr>children_nodes := [length store ..< length store + length cs], actions := acts\<rparr>]"

text \<open>
  What \<^verbatim>\<open>run\<close> keeps true of the root for the state \<open>s\<close> and the player \<open>p\<close> it was
  called with: the root holds \<open>s\<close> and is not terminal, it is unvisited as long as it has
  no children, it has one child per possible action once it has any, and its children
  have together been visited at most as often as the root.
\<close>

definition root_inv :: "'s TwoPlayerMCTS \<Rightarrow> 's \<Rightarrow> int \<Rightarrow> 's store \<Rightarrow> bool" where
  "root_inv self s p store =
     (state (store ! 0) = s \<and> \<not> terminal (store ! 0)
      \<and> (children_nodes (store ! 0) = [] \<longrightarrow> n_visits (store ! 0) = 0)
      \<and> (children_nodes (store ! 0) \<noteq> [] \<longrightarrow>
            length (children_nodes (store ! 0)) = length (get_possible_actions (game self) p s))
      \<and> sum_list (map (\<lambda>c. n_visits (store ! c)) (children_nodes (store ! 0)))
            \<le> n_visits (store ! 0))"


section \<open>Construction of the engine\<close>

lemma upt_3: "[0..<3] = [0, 1, 2]"
  by (simp add: upt_rec)

text \<open>
  C10. Construction with an exploration coefficient below 0 fails with an error and
  constructs no engine; construction with the coefficient 0 returns the engine and emits
  a warning.
\<close>

theorem init_coef:
  "(coef < 0 \<longrightarrow> init g coef = Inl ExplorationCoefNegative)
   \<and> init g 0 = Inr (\<lparr>game = g, exploration_coef = 0\<rparr>, [''exploration_coef is set to 0''])"
  by (simp add: init_def isclose_def)

theorem init_coef_witness:
  "init TicTacToe (- 1) = Inl ExplorationCoefNegative
   \<and> init TicTacToe 0
       = Inr (\<lparr>game = TicTacToe, exploration_coef = 0\<rparr>, [''exploration_coef is set to 0''])"
  using init_coef [of "- 1" TicTacToe] by simp


section \<open>The transition of Tic Tac Toe\<close>

text \<open>
  C9. For every heap and grid and every action index that is outside 0..8 or targets an
  occupied cell, \<^verbatim>\<open>make_transition\<close> raises an error that names the violation (the index
  out of range, or the occupied cell), and the heap it leaves behind is the heap it was
  given: no object of the caller is written to.
\<close>

theorem make_transition_heap_error:
  "\<not> (0 \<le> a \<and> a \<le> 8) \<or> h ! (st ! nat (a div 3)) ! nat (a mod 3) \<noteq> 0 \<Longrightarrow>
   make_transition_heap h p a st =
     (h, Inl (if \<not> (0 \<le> a \<and> a \<le> 8) then InvalidActionIndex a
              else CellOccupied (a div 3) (a mod 3)))"
  by (auto simp add: make_transition_heap_def Let_def)

theorem make_transition_heap_error_witness:
  "make_transition_heap [[1, 0, 0], [0, 0, 0], [0, 0, 0]] 1 0 [0, 1, 2]
     = ([[1, 0, 0], [0, 0, 0], [0, 0, 0]], Inl (CellOccupied 0 0))"
  using make_transition_heap_error [of 0 "[[1, 0, 0], [0, 0, 0], [0, 0, 0]]" "[0, 1, 2]" 1]
  by simp



section \<open>Floating-point lemmas\<close>

text \<open>Numbers with at most \<open>p\<close> significant bits are not changed by rounding.\<close>

lemma round_even_of_int [simp]: "round_even (of_int n) = n"
  by (simp add: round_even_def)

lemma round_float_exact:
  assumes m: "\<bar>m\<bar> < 2 ^ p"
  shows "round_float p (of_int m * 2 powr of_int q) = of_int m * 2 powr of_int q"
proof (cases "m = 0")
  case True
  then show ?thesis by (simp add: round_float_def)
next
  case False
  let ?x = "of_int m * 2 powr of_int q :: real"
  have x0: "?x \<noteq> 0" using False by simp
  have am: "0 < \<bar>real_of_int m\<bar>" using False by simp
  have lx: "log 2 \<bar>?x\<bar> = log 2 \<bar>real_of_int m\<bar> + of_int q"
    using am by (simp add: abs_mult log_mult)
  have "\<bar>real_of_int m\<bar> < 2 ^ p" using m
    by (metis of_int_abs of_int_less_iff of_int_numeral of_int_power)
  then have "log 2 \<bar>real_of_int m\<bar> < log 2 (2 ^ p)"
    using am by (subst log_less_cancel_iff) simp_all
  moreover have "log 2 ((2::real) ^ p) = real p" by (simp add: log_nat_power)
  ultimately have "log 2 \<bar>real_of_int m\<bar> < real p" by simp
  then have L: "\<lfloor>log 2 \<bar>real_of_int m\<bar>\<rfloor> < int p"
    by (simp add: floor_less_iff)
  define e where "e = \<lfloor>log 2 \<bar>?x\<bar>\<rfloor> - int p + 1"
  have e: "e = \<lfloor>log 2 \<bar>real_of_int m\<bar>\<rfloor> + q - int p + 1"
    unfolding e_def lx by simp
  define d where "d = nat (q - e)"
  have qe: "q - e = int d" using e L by (simp add: d_def)
  have "2 powr of_int q = (2::real) powr of_int e * 2 powr of_int (q - e)"
    by (simp add: powr_add[symmetric])
  also have "(2::real) powr of_int (q - e) = 2 ^ d"
    unfolding qe by (simp add: powr_realpow)
  finally have pq: "2 powr of_int q = (2::real) powr of_int e * 2 ^ d" .
  have "?x / 2 powr of_int e = of_int m * 2 ^ d" by (simp add: pq)
  also have "\<dots> = of_int (m * 2 ^ d)" by simp
  finally have ri: "round_even (?x / 2 powr of_int e) = m * 2 ^ d"
    by (simp only: round_even_of_int)
  have "round_float p ?x = of_int (round_even (?x / 2 powr of_int e)) * 2 powr of_int e"
    using x0 by (simp add: round_float_def e_def Let_def)
  also have "\<dots> = of_int (m * 2 ^ d) * 2 powr of_int e" by (simp only: ri)
  also have "\<dots> = ?x" by (simp add: pq)
  finally show ?thesis .
qed

lemma round_float_of_int:
  "\<bar>m\<bar> < 2 ^ p \<Longrightarrow> round_float p (of_int m) = of_int m"
  using round_float_exact[of m p 0] by simp

lemma round_float_0 [simp]: "round_float p 0 = 0"
  by (simp add: round_float_def)

lemma round_float_1 [simp]: "0 < p \<Longrightarrow> round_float p 1 = 1"
  using round_float_of_int[of 1 p] by simp

lemma round_float_m1 [simp]: "0 < p \<Longrightarrow> round_float p (- 1) = - 1"
  using round_float_of_int[of "- 1" p] by simp

lemma round_float_numeral [simp]:
  "(numeral n :: int) < 2 ^ p \<Longrightarrow> round_float p (numeral n) = numeral n"
  using round_float_of_int[of "numeral n" p] by simp

lemma round_float_neg_numeral [simp]:
  "(numeral n :: int) < 2 ^ p \<Longrightarrow> round_float p (- numeral n) = - numeral n"
  using round_float_of_int[of "- numeral n" p] by simp


lemma ieee_fields [simp]:
  "fadd ieee a b = round_float 53 (a + b)"
  "fsub ieee a b = round_float 53 (a - b)"
  "fmul ieee a b = round_float 53 (a * b)"
  "fdiv ieee a b = round_float 53 (a / b)"
  "fsqrt ieee a = round_float 53 (sqrt a)"
  "flog ieee a = round_float 53 (ln a)"
  "f32 ieee = round_float 24"
  by (simp_all add: ieee_def)


section \<open>Selection\<close>


















section \<open>Rollout\<close>

lemma playout_fails:
  "playout_visits g rnd c c' \<Longrightarrow> get_possible_actions g (fst c') (fst (snd c')) = [] \<Longrightarrow>
   playout g rnd (fst c) (fst (snd c)) (snd (snd c)) = Some (Inl RolloutNoAction)"
proof (induction rule: playout_visits.induct)
  case (here c)
  then show ?case by (subst playout.simps) simp
next
  case (step pid s k a k' s' reward c)
  then show ?case by (subst playout.simps) (simp add: Let_def)
qed

lemma simulations_fail:
  "rollout_visits g rnd pid s n k c' \<Longrightarrow> get_possible_actions g (fst c') (fst (snd c')) = [] \<Longrightarrow>
   simulations fl g rnd pid s n tot k = Some (Inl RolloutNoAction)"
proof (induction arbitrary: tot rule: rollout_visits.induct)
  case (first k c n)
  then show ?case using playout_fails [of g rnd "(pid, s, k)" c]
    by (simp add: bind_result_def)
next
  case (later k reward k' n c)
  then show ?case by (simp add: bind_result_def)
qed

text \<open>
  C8. If, in any simulation of a rollout, the loop reaches a state that the game has not
  reported as finished and for which the game gives no possible action, the rollout raises
  the assertion error \<^verbatim>\<open>"Rollout: got no possible action in non-terminal state"\<close>: it
  returns no reward, neither a draw nor any other value.
\<close>

theorem rollout_fails_fast:
  "rollout_visits (game self) rnd (player_to_move node) (state node) n k (pid', s', k') \<Longrightarrow>
   get_possible_actions (game self) pid' s' = [] \<Longrightarrow>
   rollout fl self rnd node n k = Some (Inl RolloutNoAction)"
  using simulations_fail [of "game self" rnd "player_to_move node" "state node" n k
      "(pid', s', k')" fl 0]
  by (simp add: rollout_def bind_result_def)

theorem rollout_fails_fast_witness:
  "rollout ieee \<lparr>game = TicTacToe, exploration_coef = 1\<rparr> (\<lambda>_. 0)
     (new_node (grid_of [[1, 2, 1], [1, 2, 2], [2, 1, 1]]) 0 None False 0) 1 0
   = Some (Inl RolloutNoAction)"
  using rollout_fails_fast [of "\<lparr>game = TicTacToe, exploration_coef = 1\<rparr>" "\<lambda>_. 0"
      "new_node (grid_of [[1, 2, 1], [1, 2, 2], [2, 1, 1]]) 0 None False 0" 1 0
      0 "grid_of [[1, 2, 1], [1, 2, 2], [2, 1, 1]]" 0 ieee]
  by (simp add: new_node_def rollout_visits.first playout_visits.here TicTacToe_def
      TicTacToe_get_possible_actions_def get_possible_actions_heap_def grid_of_def upt_3)


section \<open>Lemmas about the tree\<close>

lemma on_path_cong:
  assumes "\<And>j. parent (s1 ! j) = parent (s2 ! j)"
  shows "on_path s1 i j = on_path s2 i j"
proof
  show "on_path s1 i j \<Longrightarrow> on_path s2 i j"
    by (induction rule: on_path.induct) (auto intro: on_path.intros simp: assms)
  show "on_path s2 i j \<Longrightarrow> on_path s1 i j"
    by (induction rule: on_path.induct) (auto intro: on_path.intros simp: assms[symmetric])
qed

lemma parent_visit [simp]: "parent (visit fl r n) = parent n"
  by (simp add: visit_def)

lemma parent_update_visit:
  "parent (store[i := visit fl r (store ! i)] ! j) = parent (store ! j)"
  by (cases "i < length store"; cases "j = i") (simp_all add: list_update_beyond)

lemma on_path_update_visit:
  "on_path (store[i := visit fl r (store ! i)]) a b = on_path store a b"
  by (rule on_path_cong) (rule parent_update_visit)

lemma parents_decrease_update_visit:
  "parents_decrease store \<Longrightarrow> parents_decrease (store[i := visit fl r (store ! i)])"
  by (auto simp add: parents_decrease_def parent_update_visit)

lemma on_path_le:
  "on_path store i j \<Longrightarrow> parents_decrease store \<Longrightarrow> i < length store \<Longrightarrow> j \<le> i"
proof (induction rule: on_path.induct)
  case (start i)
  then show ?case by simp
next
  case (up i p j)
  have "i \<noteq> 0" using up by (auto simp: parents_decrease_def)
  then have "p < i" using up by (auto simp: parents_decrease_def)
  then show ?case using up by auto
qed

lemma on_path_root:
  "parents_decrease store \<Longrightarrow> i < length store \<Longrightarrow> on_path store i 0"
proof (induction i rule: less_induct)
  case (less i)
  show ?case
  proof (cases "i = 0")
    case True then show ?thesis by (simp add: on_path.start)
  next
    case False
    then obtain p where p: "parent (store ! i) = Some p" "p < i"
      using less.prems by (auto simp: parents_decrease_def)
    then have "on_path store p 0" using less by auto
    then show ?thesis using p by (auto intro: on_path.up)
  qed
qed

lemma on_path_cases:
  "on_path store i j \<longleftrightarrow> j = i \<or> (\<exists>p. parent (store ! i) = Some p \<and> on_path store p j)"
  by (auto elim: on_path.cases intro: on_path.intros)

lemma backprop_spec:
  assumes "parents_decrease store" and "i < length store"
  shows "\<exists>store'. backprop fl store r (Some i) = Some store'
           \<and> length store' = length store
           \<and> (\<forall>j. store' ! j = (if on_path store i j then visit fl r (store ! j) else store ! j))"
  using assms
proof (induction i arbitrary: store rule: less_induct)
  case (less i)
  let ?s1 = "store[i := visit fl r (store ! i)]"
  have unf: "backprop fl store r (Some i) = backprop fl ?s1 r (parent (store ! i))"
    by (subst backprop.simps) simp
  show ?case
  proof (cases "parent (store ! i)")
    case None
    have "backprop fl ?s1 r None = Some ?s1" by (subst backprop.simps) simp
    moreover have "\<And>j. on_path store i j \<longleftrightarrow> j = i"
      using None by (subst on_path_cases) simp
    ultimately show ?thesis using unf None less.prems by (auto)
  next
    case (Some p)
    have "i \<noteq> 0" using Some less.prems by (auto simp: parents_decrease_def)
    then have pi: "p < i" using Some less.prems by (auto simp: parents_decrease_def)
    have "parents_decrease ?s1" using less.prems(1) by (rule parents_decrease_update_visit)
    moreover have "p < length ?s1" using pi less.prems by simp
    ultimately obtain store' where s': "backprop fl ?s1 r (Some p) = Some store'"
      "length store' = length ?s1"
      "\<And>j. store' ! j = (if on_path ?s1 p j then visit fl r (?s1 ! j) else ?s1 ! j)"
      using less.IH[OF pi, of ?s1] by blast
    have notpi: "\<not> on_path store p i"
      using on_path_le[of store p i] less.prems pi by auto
    have path: "\<And>j. on_path store i j \<longleftrightarrow> j = i \<or> on_path store p j"
      using Some by (subst on_path_cases) simp
    have "\<And>j. store' ! j = (if on_path store i j then visit fl r (store ! j) else store ! j)"
    proof -
      fix j
      show "store' ! j = (if on_path store i j then visit fl r (store ! j) else store ! j)"
      proof (cases "j = i")
        case True
        then show ?thesis using s'(3)[of j] notpi less.prems path
          by (simp add: on_path_update_visit)
      next
        case False
        then show ?thesis using s'(3)[of j] path by (simp add: on_path_update_visit)
      qed
    qed
    then show ?thesis using unf Some s' by simp
  qed
qed

lemma visit_fields [simp]:
  "children_nodes (visit fl r n) = children_nodes n"
  "actions (visit fl r n) = actions n"
  "terminal (visit fl r n) = terminal n"
  "terminal_reward (visit fl r n) = terminal_reward n"
  "state (visit fl r n) = state n"
  "player_to_move (visit fl r n) = player_to_move n"
  "n_visits (visit fl r n) = n_visits n + 1"
  by (simp_all add: visit_def)

lemma on_path_parent:
  "on_path store a i \<Longrightarrow> parent (store ! i) = Some q \<Longrightarrow> on_path store a q"
proof (induction rule: on_path.induct)
  case (start i)
  then show ?case by (auto intro: on_path.intros)
next
  case (up i p j)
  then show ?case by (auto intro: on_path.intros)
qed

text \<open>What backprop leaves as it is.\<close>

lemma backprop_frame:
  assumes "parents_decrease store" and "i < length store"
    and "backprop fl store r (Some i) = Some store'"
  shows "length store' = length store"
    and "parent (store' ! j) = parent (store ! j)"
    and "children_nodes (store' ! j) = children_nodes (store ! j)"
    and "actions (store' ! j) = actions (store ! j)"
    and "terminal (store' ! j) = terminal (store ! j)"
    and "terminal_reward (store' ! j) = terminal_reward (store ! j)"
    and "state (store' ! j) = state (store ! j)"
    and "player_to_move (store' ! j) = player_to_move (store ! j)"
    and "n_visits (store' ! j) = n_visits (store ! j) + (if on_path store i j then 1 else 0)"
  using backprop_spec[OF assms(1,2), of fl r] assms(3) by auto

lemma backprop_wf:
  assumes "wf_store store" and "i < length store"
    and "backprop fl store r (Some i) = Some store'"
  shows "wf_store store'"
proof -
  have pd: "parents_decrease store" using assms(1) by (simp add: wf_store_def)
  note fr = backprop_frame[OF pd assms(2,3)]
  have ne: "store' \<noteq> []" using pd fr(1) by (auto simp add: parents_decrease_def)
  have "parents_decrease store'" using pd ne by (simp add: parents_decrease_def fr)
  moreover have "children_ok store'" using assms(1) by (simp add: wf_store_def children_ok_def fr)
  moreover have "in_parent store'" using assms(1) by (simp add: wf_store_def in_parent_def fr)
  moreover have "lists_ok store'" using assms(1) by (simp add: wf_store_def lists_ok_def fr)
  moreover have "terminal_leaf store'" using assms(1) by (simp add: wf_store_def terminal_leaf_def fr)
  moreover have "visits_le store'"
    unfolding visits_le_def
  proof (intro allI impI)
    fix j p assume j: "j < length store'" and p: "parent (store' ! j) = Some p"
    have p': "parent (store ! j) = Some p" using p by (simp add: fr)
    have "n_visits (store ! j) \<le> n_visits (store ! p)"
      using assms(1) j p' by (simp add: wf_store_def visits_le_def fr)
    moreover have "on_path store i j \<Longrightarrow> on_path store i p"
      using p' on_path_parent by blast
    ultimately show "n_visits (store' ! j) \<le> n_visits (store' ! p)"
      by (auto simp add: fr)
  qed
  ultimately show ?thesis by (simp add: wf_store_def)
qed

lemma backprop_root:
  assumes "parents_decrease store" and "i < length store"
    and "backprop fl store r (Some i) = Some store'"
  shows "n_visits (store' ! 0) = n_visits (store ! 0) + 1"
  using backprop_frame(9)[OF assms, of 0] on_path_root[OF assms(1,2)] by simp

lemma random_choice_mem:
  "random_choice rnd k xs = Inr (x, k') \<Longrightarrow> x \<in> set xs \<and> k' = Suc k"
  by (auto simp add: random_choice_def split: if_splits)

lemma select_child_index:
  assumes "select_child_node_ucb fl self rnd store node k = Inr (j, k')"
  shows "j < length (children_nodes (store ! node))"
proof -
  let ?scores = "action_scores fl self store node"
  have "random_choice rnd k (filter (\<lambda>j. ?scores ! j = min_list ?scores) [0..<length ?scores])
        = Inr (j, k')"
    using assms by (simp add: select_child_node_ucb_def best_indices_def Let_def split: if_splits)
  from random_choice_mem[OF this]
  have "j \<in> set (filter (\<lambda>j. ?scores ! j = min_list ?scores) [0..<length ?scores])"
    by simp
  then show ?thesis by (simp add: action_scores_def)
qed

lemma child_greater:
  assumes "parents_decrease store" and "children_ok store" and "i < length store"
    and "c \<in> set (children_nodes (store ! i))"
  shows "i < c" and "c < length store"
proof -
  have c: "c < length store" "parent (store ! c) = Some i"
    using assms by (auto simp: children_ok_def)
  then have "c \<noteq> 0" using assms(1) by (auto simp: parents_decrease_def)
  then show "i < c" using c assms(1) by (auto simp: parents_decrease_def)
  show "c < length store" by (rule c)
qed

lemma forward_pass_leaf:
  assumes "parents_decrease store" and "children_ok store" and "node < length store"
  shows "\<exists>res. forward_pass fl self rnd store node pid k = Some res
           \<and> (\<forall>n q k'. res = Inr (n, q, k') \<longrightarrow>
                 n < length store \<and> children_nodes (store ! n) = [])"
  using assms(3)
proof (induction "length store - node" arbitrary: node pid k rule: less_induct)
  case less
  show ?case
  proof (cases "children_nodes (store ! node) = []")
    case True
    then show ?thesis using less.prems by (subst forward_pass.simps) simp
  next
    case False
    show ?thesis
    proof (cases "select_child_node_ucb fl self rnd store node k")
      case (Inl e)
      then show ?thesis using False by (subst forward_pass.simps) simp
    next
      case (Inr jk)
      obtain j k' where jk: "jk = (j, k')" by (cases jk)
      have j: "j < length (children_nodes (store ! node))"
        using Inr jk select_child_index by blast
      let ?c = "children_nodes (store ! node) ! j"
      have cin: "?c \<in> set (children_nodes (store ! node))" using j by simp
      have c: "node < ?c" "?c < length store"
        using child_greater[OF assms(1,2) less.prems cin] by auto
      then have "length store - ?c < length store - node" using less.prems by arith
      from less.hyps[OF this c(2), of "change_player_idx pid" k']
      obtain res where res: "forward_pass fl self rnd store ?c (change_player_idx pid) k' = Some res"
        "\<forall>n q k'. res = Inr (n, q, k') \<longrightarrow> n < length store \<and> children_nodes (store ! n) = []"
        by blast
      have "forward_pass fl self rnd store node pid k
            = forward_pass fl self rnd store ?c (change_player_idx pid) k'"
        using False Inr jk by (subst forward_pass.simps) simp
      then show ?thesis using res by simp
    qed
  qed
qed

lemma make_children_props:
  "make_children g pid node s acts = Inr cs \<Longrightarrow>
   length cs = length acts
   \<and> (\<forall>c \<in> set cs. parent c = Some node \<and> n_visits c = 0 \<and> children_nodes c = []
         \<and> actions c = [] \<and> accumulated_value c = 0)"
proof (induction acts arbitrary: cs)
  case Nil
  then show ?case by simp
next
  case (Cons a acts)
  then show ?case
    by (auto simp add: new_node_def split: sum.splits prod.splits)
qed

lemma parent_less:
  assumes "parents_decrease store" and "i < length store" and "parent (store ! i) = Some p"
  shows "p < i"
proof -
  have "i \<noteq> 0" using assms by (cases "i = 0") (auto simp add: parents_decrease_def)
  then show ?thesis using assms by (auto simp add: parents_decrease_def)
qed

lemma expansion_cases:
  assumes "expansion self rnd store node pid k = Inr (store', ntr, k')"
  shows "(terminal (store ! node) \<and> store' = store \<and> ntr = node \<and> k' = k)
       \<or> (\<not> terminal (store ! node)
          \<and> (\<exists>cs. make_children (game self) pid node (state (store ! node))
                     (get_possible_actions (game self) pid (state (store ! node))) = Inr cs
                \<and> store' = expanded store node
                     (get_possible_actions (game self) pid (state (store ! node))) cs
                \<and> length store \<le> ntr \<and> ntr < length store + length cs \<and> k' = Suc k))"
proof (cases "terminal (store ! node)")
  case True
  then show ?thesis using assms by (simp add: expansion_def)
next
  case False
  then show ?thesis using assms
    by (auto simp add: expansion_def Let_def expanded_def split: sum.splits dest!: random_choice_mem)
qed

lemma expanded_length [simp]:
  "length (expanded store node acts cs) = length store + length cs"
  by (simp add: expanded_def)

lemma expanded_nth:
  assumes "node < length store" and "j < length store + length cs"
  shows "expanded store node acts cs ! j =
     (if j = node then (store ! node)
         \<lparr>children_nodes := [length store ..< length store + length cs], actions := acts\<rparr>
      else if j < length store then store ! j else cs ! (j - length store))"
  using assms by (auto simp add: expanded_def nth_list_update nth_append)

lemma expanded_fields:
  assumes "node < length store" and "j < length store + length cs"
    and "\<forall>c \<in> set cs. parent c = Some node \<and> n_visits c = 0 \<and> children_nodes c = []
           \<and> actions c = [] \<and> accumulated_value c = 0"
  shows "parent (expanded store node acts cs ! j)
           = (if j < length store then parent (store ! j) else Some node)"
    and "children_nodes (expanded store node acts cs ! j)
           = (if j = node then [length store ..< length store + length cs]
              else if j < length store then children_nodes (store ! j) else [])"
    and "actions (expanded store node acts cs ! j)
           = (if j = node then acts else if j < length store then actions (store ! j) else [])"
    and "n_visits (expanded store node acts cs ! j)
           = (if j < length store then n_visits (store ! j) else 0)"
    and "j < length store \<Longrightarrow> terminal (expanded store node acts cs ! j) = terminal (store ! j)"
    and "j < length store \<Longrightarrow> state (expanded store node acts cs ! j) = state (store ! j)"
    and "j < length store \<Longrightarrow>
           terminal_reward (expanded store node acts cs ! j) = terminal_reward (store ! j)"
    and "j < length store \<Longrightarrow>
           player_to_move (expanded store node acts cs ! j) = player_to_move (store ! j)"
    and "j < length store \<Longrightarrow>
           accumulated_value (expanded store node acts cs ! j) = accumulated_value (store ! j)"
proof -
  have c: "\<not> j < length store \<Longrightarrow> cs ! (j - length store) \<in> set cs"
    using assms(2) by simp
  show "parent (expanded store node acts cs ! j)
           = (if j < length store then parent (store ! j) else Some node)"
    using assms c by (auto simp add: expanded_nth)
  show "children_nodes (expanded store node acts cs ! j)
           = (if j = node then [length store ..< length store + length cs]
              else if j < length store then children_nodes (store ! j) else [])"
    using assms c by (auto simp add: expanded_nth)
  show "actions (expanded store node acts cs ! j)
           = (if j = node then acts else if j < length store then actions (store ! j) else [])"
    using assms c by (auto simp add: expanded_nth)
  show "n_visits (expanded store node acts cs ! j)
           = (if j < length store then n_visits (store ! j) else 0)"
    using assms c by (auto simp add: expanded_nth)
  show "j < length store \<Longrightarrow> terminal (expanded store node acts cs ! j) = terminal (store ! j)"
    using assms by (auto simp add: expanded_nth)
  show "j < length store \<Longrightarrow> state (expanded store node acts cs ! j) = state (store ! j)"
    using assms by (auto simp add: expanded_nth)
  show "j < length store \<Longrightarrow>
           terminal_reward (expanded store node acts cs ! j) = terminal_reward (store ! j)"
    using assms by (auto simp add: expanded_nth)
  show "j < length store \<Longrightarrow>
           player_to_move (expanded store node acts cs ! j) = player_to_move (store ! j)"
    using assms by (auto simp add: expanded_nth)
  show "j < length store \<Longrightarrow>
           accumulated_value (expanded store node acts cs ! j) = accumulated_value (store ! j)"
    using assms by (auto simp add: expanded_nth)
qed

lemma expanded_wf:
  assumes wf: "wf_store store" and n: "node < length store"
    and leaf: "children_nodes (store ! node) = []" and nt: "\<not> terminal (store ! node)"
    and cs: "\<forall>c \<in> set cs. parent c = Some node \<and> n_visits c = 0 \<and> children_nodes c = []
           \<and> actions c = [] \<and> accumulated_value c = 0"
    and len: "length acts = length cs"
  shows "wf_store (expanded store node acts cs)"
proof -
  let ?s = "expanded store node acts cs"
  note f = expanded_fields[OF n _ cs]
  have pd: "parents_decrease store" and co: "children_ok store" and ip: "in_parent store"
    and lo: "lists_ok store" and tl: "terminal_leaf store" and vl: "visits_le store"
    using wf by (simp_all add: wf_store_def)
  have 1: "parents_decrease ?s"
    unfolding parents_decrease_def
  proof (intro conjI allI impI)
    show "?s \<noteq> []" using n by (auto simp add: expanded_def)
    show "parent (?s ! 0) = None" using pd n by (simp add: f parents_decrease_def)
    fix i assume i: "i < length ?s" "0 < i"
    show "\<exists>p. parent (?s ! i) = Some p \<and> p < i"
      using pd n i by (auto simp add: f parents_decrease_def)
  qed
  have 2: "children_ok ?s"
    unfolding children_ok_def
  proof (intro allI impI ballI)
    fix i c assume i: "i < length ?s" and c: "c \<in> set (children_nodes (?s ! i))"
    show "c < length ?s \<and> parent (?s ! c) = Some i"
    proof (cases "i = node")
      case True
      then show ?thesis using c i n by (auto simp add: f)
    next
      case False
      then have il: "i < length store" and c': "c \<in> set (children_nodes (store ! i))"
        using c i by (auto simp add: f split: if_splits)
      then have "c < length store" "parent (store ! c) = Some i"
        using co by (auto simp add: children_ok_def)
      then show ?thesis by (simp add: f)
    qed
  qed
  have 3: "in_parent ?s"
    unfolding in_parent_def
  proof (intro allI impI)
    fix i p assume i: "i < length ?s" and p: "parent (?s ! i) = Some p"
    show "i \<in> set (children_nodes (?s ! p))"
    proof (cases "i < length store")
      case True
      then have pp: "parent (store ! i) = Some p" using p i by (simp add: f)
      then have m: "i \<in> set (children_nodes (store ! p))"
        using ip True by (auto simp add: in_parent_def)
      have "p < i" using parent_less[OF pd True pp] .
      then have pl: "p < length store" using True by simp
      have "p \<noteq> node" using m leaf by auto
      then show ?thesis using m pl by (simp add: f)
    next
      case False
      then have "p = node" using p i by (simp add: f)
      then show ?thesis using False i n by (simp add: f)
    qed
  qed
  have 4: "lists_ok ?s"
    unfolding lists_ok_def
  proof (intro allI impI)
    fix i assume i: "i < length ?s"
    show "distinct (children_nodes (?s ! i))
          \<and> length (actions (?s ! i)) = length (children_nodes (?s ! i))"
      using i lo len by (auto simp add: f lists_ok_def)
  qed
  have 5: "terminal_leaf ?s"
    unfolding terminal_leaf_def
  proof (intro allI impI)
    fix i assume i: "i < length ?s" and t: "terminal (?s ! i)"
    show "children_nodes (?s ! i) = []"
    proof (cases "i < length store")
      case True
      then have "terminal (store ! i)" using t i by (simp add: f)
      then have "children_nodes (store ! i) = []" "i \<noteq> node"
        using tl True nt by (auto simp add: terminal_leaf_def)
      then show ?thesis using True i by (simp add: f)
    next
      case False
      then show ?thesis using i n by (simp add: f)
    qed
  qed
  have 6: "visits_le ?s"
    unfolding visits_le_def
  proof (intro allI impI)
    fix i p assume i: "i < length ?s" and p: "parent (?s ! i) = Some p"
    show "n_visits (?s ! i) \<le> n_visits (?s ! p)"
    proof (cases "i < length store")
      case True
      then have pp: "parent (store ! i) = Some p" using p i by (simp add: f)
      have "p < i" using parent_less[OF pd True pp] .
      then have pl: "p < length store" using True by simp
      show ?thesis using vl True pp pl by (simp add: f visits_le_def)
    next
      case False
      then show ?thesis using i by (simp add: f)
    qed
  qed
  show ?thesis using 1 2 3 4 5 6 by (simp add: wf_store_def)
qed

lemma tree_iteration_steps:
  assumes "tree_iteration fl self rnd p nrs sk = Some (Inr (store2, k3))"
  shows "\<exists>node pid k1 store1 ntr k2 r.
           forward_pass fl self rnd (fst sk) 0 p (snd sk) = Some (Inr (node, pid, k1))
         \<and> expansion self rnd (fst sk) node pid k1 = Inr (store1, ntr, k2)
         \<and> evaluate fl self rnd (store1 ! ntr) nrs k2 = Some (Inr (r, k3))
         \<and> backprop fl store1 r (Some ntr) = Some store2"
  using assms
  by (auto simp add: tree_iteration_def bind_result_def
      split: option.splits sum.splits prod.splits)

lemma path_linear:
  "on_path store i a \<Longrightarrow> on_path store i b \<Longrightarrow> on_path store a b \<or> on_path store b a"
proof (induction rule: on_path.induct)
  case (start i)
  then show ?case by simp
next
  case (up i p j)
  from up.prems have "b = i \<or> (\<exists>q. parent (store ! i) = Some q \<and> on_path store q b)"
    by (subst (asm) on_path_cases) simp
  then show ?case
  proof
    assume "b = i"
    then have "on_path store b j" using up.hyps by (auto intro: on_path.up)
    then show ?thesis by simp
  next
    assume "\<exists>q. parent (store ! i) = Some q \<and> on_path store q b"
    then have "on_path store p b" using up.hyps by auto
    then show ?thesis using up.IH by simp
  qed
qed

lemma root_child_on_path_unique:
  assumes "parent (store ! 0) = None"
    and "parent (store ! c) = Some 0" and "parent (store ! c') = Some 0"
    and "on_path store i c" and "on_path store i c'"
  shows "c = c'"
proof -
  have root: "\<And>x. on_path store 0 x \<Longrightarrow> x = 0"
    using assms(1) by (subst (asm) on_path_cases) simp
  have c0: "c \<noteq> 0" "c' \<noteq> 0" using assms(1,2,3) by (cases "c = 0"; cases "c' = 0"; simp)+
  have step: "\<And>a b. parent (store ! a) = Some 0 \<Longrightarrow> b \<noteq> 0 \<Longrightarrow> on_path store a b \<Longrightarrow> b = a"
  proof -
    fix a b assume a: "parent (store ! a) = Some 0" and b: "b \<noteq> 0" and ab: "on_path store a b"
    from ab have "b = a \<or> on_path store 0 b" using a by (subst (asm) on_path_cases) simp
    then show "b = a" using root b by auto
  qed
  from path_linear[OF assms(4,5)] show ?thesis
    using step[OF assms(2) c0(2)] step[OF assms(3) c0(1)] by auto
qed

lemma sum_list_no_bump:
  "\<forall>y \<in> set xs. \<not> P y \<Longrightarrow>
   sum_list (map (\<lambda>c. f c + (if P c then 1 else 0)) xs) = (sum_list (map f xs) :: nat)"
  by (induction xs) simp_all

lemma sum_list_one_bump:
  "distinct xs \<Longrightarrow> (\<forall>x \<in> set xs. \<forall>y \<in> set xs. P x \<longrightarrow> P y \<longrightarrow> x = y) \<Longrightarrow>
   sum_list (map (\<lambda>c. f c + (if P c then 1 else 0)) xs) \<le> (sum_list (map f xs) :: nat) + 1"
proof (induction xs)
  case Nil
  then show ?case by simp
next
  case (Cons x xs)
  show ?case
  proof (cases "P x")
    case True
    then have "\<forall>y \<in> set xs. \<not> P y" using Cons.prems by auto
    then show ?thesis using True by (simp add: sum_list_no_bump)
  next
    case False
    then show ?thesis using Cons by simp
  qed
qed

lemma backprop_root_sum:
  assumes wf: "wf_store store" and i: "i < length store"
    and b: "backprop fl store r (Some i) = Some store'"
  shows "sum_list (map (\<lambda>c. n_visits (store' ! c)) (children_nodes (store' ! 0)))
         \<le> sum_list (map (\<lambda>c. n_visits (store ! c)) (children_nodes (store ! 0))) + 1"
proof -
  have pd: "parents_decrease store" and co: "children_ok store" and lo: "lists_ok store"
    using wf by (simp_all add: wf_store_def)
  note fr = backprop_frame[OF pd i b]
  have l0: "0 < length store" using pd by (simp add: parents_decrease_def)
  have d: "distinct (children_nodes (store ! 0))" using lo l0 by (simp add: lists_ok_def)
  have u: "\<forall>x \<in> set (children_nodes (store ! 0)). \<forall>y \<in> set (children_nodes (store ! 0)).
             on_path store i x \<longrightarrow> on_path store i y \<longrightarrow> x = y"
  proof (intro ballI impI)
    fix x y assume "x \<in> set (children_nodes (store ! 0))" "y \<in> set (children_nodes (store ! 0))"
      and xy: "on_path store i x" "on_path store i y"
    then have "parent (store ! x) = Some 0" "parent (store ! y) = Some 0"
      using co l0 by (auto simp add: children_ok_def)
    moreover have "parent (store ! 0) = None" using pd by (simp add: parents_decrease_def)
    ultimately show "x = y" using xy root_child_on_path_unique by blast
  qed
  show ?thesis
    using sum_list_one_bump[OF d u, of "\<lambda>c. n_visits (store ! c)"] by (simp add: fr)
qed

lemma forward_pass_root_leaf:
  "children_nodes (store ! 0) = [] \<Longrightarrow>
   forward_pass fl self rnd store 0 p k = Some (Inr (0, p, k))"
  by (subst forward_pass.simps) simp

lemma sum_list_all_zero:
  "\<forall>x \<in> set xs. f x = (0::nat) \<Longrightarrow> sum_list (map f xs) = 0"
  by (induction xs) simp_all

text \<open>The store between expansion and backpropagation.\<close>

lemma expansion_inv:
  assumes wf: "wf_store store" and ri: "root_inv self s p store"
    and fp: "forward_pass fl self rnd store 0 p k = Some (Inr (node, pid, k1))"
    and ex: "expansion self rnd store node pid k1 = Inr (store1, ntr, k2)"
  shows "wf_store store1" and "ntr < length store1"
    and "n_visits (store1 ! 0) = n_visits (store ! 0)"
    and "state (store1 ! 0) = s" and "\<not> terminal (store1 ! 0)"
    and "children_nodes (store1 ! 0) \<noteq> []"
    and "length (children_nodes (store1 ! 0)) = length (get_possible_actions (game self) p s)"
    and "sum_list (map (\<lambda>c. n_visits (store1 ! c)) (children_nodes (store1 ! 0)))
           \<le> n_visits (store ! 0)"
proof -
  have pd: "parents_decrease store" and co: "children_ok store"
    using wf by (simp_all add: wf_store_def)
  have l0: "0 < length store" using pd by (simp add: parents_decrease_def)
  have leaf: "node < length store" "children_nodes (store ! node) = []"
    using forward_pass_leaf[OF pd co l0, of fl self rnd p k] fp by auto
  have root: "state (store ! 0) = s" "\<not> terminal (store ! 0)"
    using ri by (simp_all add: root_inv_def)
  have all: "wf_store store1 \<and> ntr < length store1
    \<and> n_visits (store1 ! 0) = n_visits (store ! 0)
    \<and> state (store1 ! 0) = s \<and> \<not> terminal (store1 ! 0)
    \<and> children_nodes (store1 ! 0) \<noteq> []
    \<and> length (children_nodes (store1 ! 0)) = length (get_possible_actions (game self) p s)
    \<and> sum_list (map (\<lambda>c. n_visits (store1 ! c)) (children_nodes (store1 ! 0)))
           \<le> n_visits (store ! 0)"
  proof (cases "children_nodes (store ! 0) = []")
    case True
    then have n0: "node = 0" "pid = p" "k1 = k"
      using fp forward_pass_root_leaf[OF True, of fl self rnd p k] by simp_all
    let ?acts = "get_possible_actions (game self) p s"
    from expansion_cases[OF ex] root n0 obtain cs where
      cs: "make_children (game self) p 0 s ?acts = Inr cs"
      and s1: "store1 = expanded store 0 ?acts cs"
      and ntr: "length store \<le> ntr" "ntr < length store + length cs"
      by auto
    note mc = make_children_props[OF cs]
    have csp: "\<forall>c \<in> set cs. parent c = Some 0 \<and> n_visits c = 0 \<and> children_nodes c = []
           \<and> actions c = [] \<and> accumulated_value c = 0"
      using mc by simp
    have len: "length ?acts = length cs" using mc by simp
    note f = expanded_fields[OF l0 _ csp]
    have w: "wf_store store1"
      unfolding s1 using expanded_wf[OF wf l0 True root(2) csp len] .
    have ch: "children_nodes (store1 ! 0) = [length store ..< length store + length cs]"
      using l0 by (simp add: s1 f)
    have "\<forall>c \<in> set [length store ..< length store + length cs]. n_visits (store1 ! c) = 0"
      by (auto simp add: s1 f)
    then have z: "\<forall>c \<in> set (children_nodes (store1 ! 0)). n_visits (store1 ! c) = 0"
      by (simp only: ch)
    have sm: "sum_list (map (\<lambda>c. n_visits (store1 ! c)) (children_nodes (store1 ! 0)))
           \<le> n_visits (store ! 0)"
      by (simp only: sum_list_all_zero[OF z] le0)
    have ne: "children_nodes (store1 ! 0) \<noteq> []" using ntr ch by auto
    have ln: "length (children_nodes (store1 ! 0)) = length ?acts" using ch len by simp
    have "ntr < length store1" using ntr by (simp add: s1)
    moreover have "n_visits (store1 ! 0) = n_visits (store ! 0)" using l0 by (simp add: s1 f)
    moreover have "state (store1 ! 0) = s" "\<not> terminal (store1 ! 0)"
      using l0 root by (simp_all add: s1 f)
    ultimately show ?thesis using w sm ne ln by simp
  next
    case False
    then have nn: "node \<noteq> 0" using leaf(2) by (cases "node = 0") simp_all
    have rlen: "length (children_nodes (store ! 0)) = length (get_possible_actions (game self) p s)"
      and rsum: "sum_list (map (\<lambda>c. n_visits (store ! c)) (children_nodes (store ! 0)))
                 \<le> n_visits (store ! 0)"
      using ri False by (simp_all add: root_inv_def)
    from expansion_cases[OF ex] show ?thesis
    proof
      assume "terminal (store ! node) \<and> store1 = store \<and> ntr = node \<and> k2 = k1"
      then show ?thesis using wf leaf root False rlen rsum by simp
    next
      assume "\<not> terminal (store ! node)
          \<and> (\<exists>cs. make_children (game self) pid node (state (store ! node))
                     (get_possible_actions (game self) pid (state (store ! node))) = Inr cs
                \<and> store1 = expanded store node
                     (get_possible_actions (game self) pid (state (store ! node))) cs
                \<and> length store \<le> ntr \<and> ntr < length store + length cs \<and> k2 = Suc k1)"
      then obtain cs where nt: "\<not> terminal (store ! node)"
        and cs: "make_children (game self) pid node (state (store ! node))
                     (get_possible_actions (game self) pid (state (store ! node))) = Inr cs"
        and s1: "store1 = expanded store node
                     (get_possible_actions (game self) pid (state (store ! node))) cs"
        and ntr: "length store \<le> ntr" "ntr < length store + length cs"
        by auto
      let ?acts = "get_possible_actions (game self) pid (state (store ! node))"
      note mc = make_children_props[OF cs]
      have csp: "\<forall>c \<in> set cs. parent c = Some node \<and> n_visits c = 0 \<and> children_nodes c = []
           \<and> actions c = [] \<and> accumulated_value c = 0"
        using mc by simp
      have len: "length ?acts = length cs" using mc by simp
      note f = expanded_fields[OF leaf(1) _ csp]
      have w: "wf_store store1"
        unfolding s1 using expanded_wf[OF wf leaf nt csp len] .
      have ch: "children_nodes (store1 ! 0) = children_nodes (store ! 0)"
        using l0 nn by (simp add: s1 f)
      have "\<forall>c \<in> set (children_nodes (store ! 0)). c < length store"
        using co l0 by (auto simp add: children_ok_def)
      then have "map (\<lambda>c. n_visits (store1 ! c)) (children_nodes (store ! 0))
                 = map (\<lambda>c. n_visits (store ! c)) (children_nodes (store ! 0))"
        by (auto simp add: s1 f)
      then have sm: "sum_list (map (\<lambda>c. n_visits (store1 ! c)) (children_nodes (store1 ! 0)))
           \<le> n_visits (store ! 0)"
        using rsum by (simp only: ch)
      have "ntr < length store1" using ntr by (simp add: s1)
      moreover have "n_visits (store1 ! 0) = n_visits (store ! 0)" using l0 by (simp add: s1 f)
      moreover have "state (store1 ! 0) = s" "\<not> terminal (store1 ! 0)"
        using l0 root by (simp_all add: s1 f)
      ultimately show ?thesis using w sm False rlen ch by simp
    qed
  qed
  show "wf_store store1" and "ntr < length store1"
    and "n_visits (store1 ! 0) = n_visits (store ! 0)"
    and "state (store1 ! 0) = s" and "\<not> terminal (store1 ! 0)"
    and "children_nodes (store1 ! 0) \<noteq> []"
    and "length (children_nodes (store1 ! 0)) = length (get_possible_actions (game self) p s)"
    and "sum_list (map (\<lambda>c. n_visits (store1 ! c)) (children_nodes (store1 ! 0)))
           \<le> n_visits (store ! 0)"
    using all by simp_all
qed

lemma tree_iteration_inv:
  assumes wf: "wf_store store" and ri: "root_inv self s p store"
    and it: "tree_iteration fl self rnd p nrs (store, k) = Some (Inr (store2, k3))"
  shows "wf_store store2" and "root_inv self s p store2"
    and "n_visits (store2 ! 0) = n_visits (store ! 0) + 1"
proof -
  from tree_iteration_steps[OF it] obtain node pid k1 store1 ntr k2 r where
    fp: "forward_pass fl self rnd store 0 p k = Some (Inr (node, pid, k1))"
    and ex: "expansion self rnd store node pid k1 = Inr (store1, ntr, k2)"
    and bp: "backprop fl store1 r (Some ntr) = Some store2"
    by auto
  note e = expansion_inv[OF wf ri fp ex]
  have pd1: "parents_decrease store1" using e(1) by (simp add: wf_store_def)
  note fr = backprop_frame[OF pd1 e(2) bp]
  show w2: "wf_store store2" using backprop_wf[OF e(1,2) bp] .
  show n2: "n_visits (store2 ! 0) = n_visits (store ! 0) + 1"
    using backprop_root[OF pd1 e(2) bp] e(3) by simp
  have "sum_list (map (\<lambda>c. n_visits (store2 ! c)) (children_nodes (store2 ! 0)))
        \<le> n_visits (store2 ! 0)"
    using backprop_root_sum[OF e(1,2) bp] e(8) n2 by simp
  then show "root_inv self s p store2"
    using e(4,5,6,7) by (simp add: root_inv_def fr)
qed

lemma iterations_inv:
  assumes "wf_store (fst sk)" and "root_inv self s p (fst sk)"
    and "iterations fl self rnd p nrs n sk = Some (Inr sk')"
  shows "wf_store (fst sk') \<and> root_inv self s p (fst sk')
         \<and> n_visits (fst sk' ! 0) = n_visits (fst sk ! 0) + n"
  using assms
proof (induction n arbitrary: sk)
  case 0
  then show ?case by simp
next
  case (Suc n)
  from Suc.prems(3) obtain sk1 where
    t1: "tree_iteration fl self rnd p nrs sk = Some (Inr sk1)"
    and t2: "iterations fl self rnd p nrs n sk1 = Some (Inr sk')"
    by (auto simp add: bind_result_def split: option.splits sum.splits)
  have t1': "tree_iteration fl self rnd p nrs (fst sk, snd sk) = Some (Inr (fst sk1, snd sk1))"
    using t1 by simp
  note ti = tree_iteration_inv[OF Suc.prems(1,2) t1']
  from Suc.IH[OF ti(1,2) t2] ti(3) show ?case by simp
qed

lemma initial_inv:
  "wf_store [new_node s p None False 0]" "root_inv self s p [new_node s p None False 0]"
  by (simp_all add: wf_store_def parents_decrease_def children_ok_def in_parent_def
      lists_ok_def terminal_leaf_def visits_le_def root_inv_def new_node_def)

lemma run_inv:
  assumes "run fl self rnd s p n nrs = Some (Inr (store, k))"
  shows "wf_store store" and "root_inv self s p store" and "n_visits (store ! 0) = n"
proof -
  let ?sk = "([new_node s p None False 0], 0::nat)"
  have it: "iterations fl self rnd p nrs n ?sk = Some (Inr (store, k))"
    using assms by (simp add: run_def)
  have a: "wf_store (fst ?sk)" and b: "root_inv self s p (fst ?sk)"
    by (simp_all add: initial_inv)
  from iterations_inv[OF a b it]
  show "wf_store store" and "root_inv self s p store" and "n_visits (store ! 0) = n"
    by (simp_all add: new_node_def)
qed


section \<open>Backpropagation\<close>

text \<open>
  C2. In a store whose parent links lead from every node to the root at position 0, as in
  every store that \<^verbatim>\<open>run\<close> builds, and whose players are 0 and 1, backpropagation from
  node \<open>i\<close> returns, and in the store it returns exactly the nodes on the path of parent
  links from \<open>i\<close> up to and including the root have changed: each has \<open>n_visits\<close>
  incremented by 1 and the evaluation value added to \<open>accumulated_value\<close> (\<^verbatim>\<open>+=\<close>), or
  subtracted from it (\<^verbatim>\<open>-=\<close>) where \<open>player_to_move\<close> is 1; all other fields and all
  other nodes are as before.
\<close>

theorem backprop_path:
  assumes "parents_decrease store" and "i < length store"
    and "\<forall>j < length store. player_to_move (store ! j) = 0 \<or> player_to_move (store ! j) = 1"
  shows "\<exists>store'. backprop fl store r (Some i) = Some store'
     \<and> length store' = length store
     \<and> on_path store i i \<and> on_path store i 0
     \<and> (\<forall>j < length store.
          store' ! j =
            (if on_path store i j
             then (store ! j)\<lparr>accumulated_value :=
                       (if player_to_move (store ! j) = 1
                        then fsub fl (accumulated_value (store ! j)) r
                        else fadd fl (accumulated_value (store ! j)) r),
                     n_visits := n_visits (store ! j) + 1\<rparr>
             else store ! j))"
proof -
  from backprop_spec[OF assms(1,2), of fl r] obtain store' where
    s: "backprop fl store r (Some i) = Some store'" "length store' = length store"
      "\<And>j. store' ! j = (if on_path store i j then visit fl r (store ! j) else store ! j)"
    by blast
  have v: "\<And>j. j < length store \<Longrightarrow>
     visit fl r (store ! j) =
       (store ! j)\<lparr>accumulated_value :=
                       (if player_to_move (store ! j) = 1
                        then fsub fl (accumulated_value (store ! j)) r
                        else fadd fl (accumulated_value (store ! j)) r),
                     n_visits := n_visits (store ! j) + 1\<rparr>"
    using assms(3) by (auto simp add: visit_def)
  show ?thesis
    using s v on_path_root[OF assms(1,2)] by (auto intro: on_path.start)
qed

lemma example_store_shape:
  "parents_decrease example_store" "length example_store = 3"
  "\<forall>j < length example_store. player_to_move (example_store ! j) = 0
      \<or> player_to_move (example_store ! j) = 1"
  by (auto simp add: parents_decrease_def example_store_def new_node_def less_Suc_eq
      numeral_3_eq_3)

theorem backprop_path_witness:
  "\<exists>store'. backprop ieee example_store 1 (Some 1) = Some store'
     \<and> n_visits (store' ! 0) = 2 \<and> accumulated_value (store' ! 0) = 2
     \<and> n_visits (store' ! 1) = 2 \<and> accumulated_value (store' ! 1) = - 2
     \<and> store' ! 2 = example_store ! 2"
proof -
  have i: "1 < length example_store" by (simp add: example_store_shape)
  from backprop_path[OF example_store_shape(1) i example_store_shape(3), of ieee 1]
  obtain store' where
    s: "backprop ieee example_store 1 (Some 1) = Some store'"
      "on_path example_store 1 1" "on_path example_store 1 0"
      "\<forall>j < length example_store.
          store' ! j =
            (if on_path example_store 1 j
             then (example_store ! j)\<lparr>accumulated_value :=
                       (if player_to_move (example_store ! j) = 1
                        then fsub ieee (accumulated_value (example_store ! j)) 1
                        else fadd ieee (accumulated_value (example_store ! j)) 1),
                     n_visits := n_visits (example_store ! j) + 1\<rparr>
             else example_store ! j)"
    by blast
  have n2: "\<not> on_path example_store 1 2"
    using on_path_le[OF _ example_store_shape(1) i, of 2] by auto
  have "store' ! 0 = (example_store ! 0)\<lparr>accumulated_value := 2, n_visits := 2\<rparr>"
    using s(3,4) by (simp add: example_store_shape(2)) (simp add: example_store_def new_node_def)
  moreover have "store' ! 1 = (example_store ! 1)\<lparr>accumulated_value := - 2, n_visits := 2\<rparr>"
    using s(2,4) by (simp add: example_store_shape(2)) (simp add: example_store_def new_node_def)
  moreover have "store' ! 2 = example_store ! 2"
    using n2 s(4) by (simp add: example_store_shape(2))
  ultimately show ?thesis using s(1) by simp
qed


section \<open>The search\<close>

text \<open>The equations that evaluate a search on a concrete input.\<close>

lemmas run_eval = run_def tree_iteration_def bind_result_def forward_pass.simps new_node_def
  expansion_def TicTacToe_def TicTacToe_get_possible_actions_def get_possible_actions_heap_def
  TicTacToe_make_transition_def make_transition_heap_def deepcopy_def read_grid_def grid_of_def
  check_victory_def is_draw_def upt_3 change_player_idx_def random_choice_def evaluate_def
  rollout_def playout.simps backprop.simps visit_def Let_def upt_rec select_child_node_ucb_def
  action_scores_def best_indices_def numeral_2_eq_2 numeral_3_eq_3 get_best_action_def
  argmin_def

lemma simulations_return:
  assumes "\<forall>pid s' k'. playout g rnd pid s' k' \<noteq> None"
  shows "simulations fl g rnd pid s n tot k \<noteq> None"
proof (induction n arbitrary: tot k)
  case 0
  then show ?case by simp
next
  case (Suc n)
  from assms obtain y where "playout g rnd pid s k = Some y" by blast
  then show ?case using Suc by (cases y) (auto simp add: bind_result_def)
qed

lemma evaluate_returns:
  assumes "\<forall>pid s' k'. playout (game self) rnd pid s' k' \<noteq> None"
  shows "evaluate fl self rnd node nrs k \<noteq> None"
proof -
  from simulations_return[OF assms, of fl "player_to_move node" "state node" nrs 0 k]
  obtain y where "simulations fl (game self) rnd (player_to_move node) (state node) nrs 0 k
                  = Some y" by blast
  then have "rollout fl self rnd node nrs k \<noteq> None"
    by (cases y) (auto simp add: rollout_def bind_result_def)
  then show ?thesis by (simp add: evaluate_def)
qed

lemma tree_iteration_returns:
  assumes wf: "wf_store store" and ri: "root_inv self s p store"
    and pl: "\<forall>pid s' k'. playout (game self) rnd pid s' k' \<noteq> None"
  shows "tree_iteration fl self rnd p nrs (store, k) \<noteq> None"
proof -
  have pd: "parents_decrease store" and co: "children_ok store"
    using wf by (simp_all add: wf_store_def)
  have l0: "0 < length store" using pd by (simp add: parents_decrease_def)
  from forward_pass_leaf[OF pd co l0, of fl self rnd p k]
  obtain res where res: "forward_pass fl self rnd store 0 p k = Some res" by blast
  show ?thesis
  proof (cases res)
    case (Inl e)
    then show ?thesis using res by (simp add: tree_iteration_def bind_result_def)
  next
    case (Inr x)
    obtain node pid k1 where x: "x = (node, pid, k1)" by (cases x)
    have fp: "forward_pass fl self rnd store 0 p k = Some (Inr (node, pid, k1))"
      using res Inr x by simp
    show ?thesis
    proof (cases "expansion self rnd store node pid k1")
      case (Inl e)
      then show ?thesis using fp by (simp add: tree_iteration_def bind_result_def)
    next
      case (Inr y)
      obtain store1 ntr k2 where y: "y = (store1, ntr, k2)" by (cases y)
      have ex: "expansion self rnd store node pid k1 = Inr (store1, ntr, k2)"
        using Inr y by simp
      note e = expansion_inv[OF wf ri fp ex]
      have pd1: "parents_decrease store1" using e(1) by (simp add: wf_store_def)
      from evaluate_returns[OF pl, of fl "store1 ! ntr" nrs k2]
      obtain z where z: "evaluate fl self rnd (store1 ! ntr) nrs k2 = Some z" by blast
      show ?thesis
      proof (cases z)
        case (Inl e')
        then show ?thesis using fp ex z by (simp add: tree_iteration_def bind_result_def)
      next
        case (Inr w)
        obtain r k3 where w: "w = (r, k3)" by (cases w)
        from backprop_spec[OF pd1 e(2), of fl r]
        obtain store2 where "backprop fl store1 r (Some ntr) = Some store2" by blast
        then show ?thesis using fp ex z Inr w
          by (simp add: tree_iteration_def bind_result_def)
      qed
    qed
  qed
qed

lemma iterations_return:
  assumes "wf_store (fst sk)" and "root_inv self s p (fst sk)"
    and pl: "\<forall>pid s' k'. playout (game self) rnd pid s' k' \<noteq> None"
  shows "iterations fl self rnd p nrs n sk \<noteq> None"
  using assms(1,2)
proof (induction n arbitrary: sk)
  case 0
  then show ?case by simp
next
  case (Suc n)
  from tree_iteration_returns[OF Suc.prems pl, where fl = fl and nrs = nrs and k = "snd sk"]
  obtain y where y: "tree_iteration fl self rnd p nrs sk = Some y" by auto
  show ?case
  proof (cases y)
    case (Inl e)
    then show ?thesis using y by (simp add: bind_result_def)
  next
    case (Inr sk1)
    have "tree_iteration fl self rnd p nrs (fst sk, snd sk) = Some (Inr (fst sk1, snd sk1))"
      using y Inr by simp
    note ti = tree_iteration_inv[OF Suc.prems this]
    from Suc.IH[OF ti(1,2)] show ?thesis using y Inr by (simp add: bind_result_def)
  qed
qed

text \<open>
  C3. Whenever \<^verbatim>\<open>run\<close> with budget \<open>n\<close> returns, the root of the returned tree has
  \<open>n_visits = n\<close>, every node with a parent is visited at most as often as its parent, and
  every node but the root has a parent, created before it, that holds it among its
  children. \<^verbatim>\<open>run\<close> does return or raise when the playouts of the game do: its own loops
  terminate.
\<close>

theorem run_visit_counts:
  "(\<forall>store k. run fl self rnd s p n nrs = Some (Inr (store, k)) \<longrightarrow>
      n_visits (store ! 0) = n
      \<and> (\<forall>i < length store. \<forall>q. parent (store ! i) = Some q \<longrightarrow>
            n_visits (store ! i) \<le> n_visits (store ! q))
      \<and> (\<forall>i < length store. 0 < i \<longrightarrow>
            (\<exists>q < i. parent (store ! i) = Some q \<and> i \<in> set (children_nodes (store ! q)))))
   \<and> ((\<forall>pid s' k'. playout (game self) rnd pid s' k' \<noteq> None) \<longrightarrow>
        run fl self rnd s p n nrs \<noteq> None)"
proof (intro conjI allI impI)
  fix store k assume r: "run fl self rnd s p n nrs = Some (Inr (store, k))"
  note inv = run_inv[OF r]
  have pd: "parents_decrease store" and ip: "in_parent store" and vl: "visits_le store"
    using inv(1) by (simp_all add: wf_store_def)
  show "n_visits (store ! 0) = n" by (rule inv(3))
  show "\<And>i q. i < length store \<Longrightarrow> parent (store ! i) = Some q \<Longrightarrow>
          n_visits (store ! i) \<le> n_visits (store ! q)"
    using vl by (simp add: visits_le_def)
  show "\<And>i. i < length store \<Longrightarrow> 0 < i \<Longrightarrow>
          \<exists>q < i. parent (store ! i) = Some q \<and> i \<in> set (children_nodes (store ! q))"
  proof -
    fix i assume i: "i < length store" "0 < i"
    then obtain q where q: "parent (store ! i) = Some q" "q < i"
      using pd by (auto simp add: parents_decrease_def)
    then have "i \<in> set (children_nodes (store ! q))"
      using ip i by (simp add: in_parent_def)
    then show "\<exists>q < i. parent (store ! i) = Some q \<and> i \<in> set (children_nodes (store ! q))"
      using q by auto
  qed
next
  assume pl: "\<forall>pid s' k'. playout (game self) rnd pid s' k' \<noteq> None"
  show "run fl self rnd s p n nrs \<noteq> None"
    unfolding run_def
    by (rule iterations_return[where s = s]) (simp_all add: initial_inv pl)
qed

lemma one_move_playout: "playout one_move_game rnd pid s k \<noteq> None"
  by (subst playout.simps) (simp add: one_move_game_def random_choice_def)

theorem run_visit_counts_witness:
  "(\<exists>store k. run ieee \<lparr>game = TicTacToe, exploration_coef = 0\<rparr> Suc
                  (grid_of [[1, 2, 1], [1, 2, 2], [0, 0, 1]]) 0 3 1 = Some (Inr (store, k))
      \<and> length store = 3 \<and> n_visits (store ! 0) = 3
      \<and> n_visits (store ! 1) = 2 \<and> n_visits (store ! 2) = 1
      \<and> parent (store ! 1) = Some 0 \<and> parent (store ! 2) = Some 0)
   \<and> run ieee \<lparr>game = one_move_game, exploration_coef = 0\<rparr> Suc () 0 5 1 \<noteq> None"
proof -
  have "\<exists>store k. run ieee \<lparr>game = TicTacToe, exploration_coef = 0\<rparr> Suc
                  (grid_of [[1, 2, 1], [1, 2, 2], [0, 0, 1]]) 0 3 1 = Some (Inr (store, k))
      \<and> length store = 3 \<and> n_visits (store ! 1) = 2 \<and> n_visits (store ! 2) = 1
      \<and> parent (store ! 1) = Some 0 \<and> parent (store ! 2) = Some 0"
    by (simp add: run_eval)
  then obtain store k where
    r: "run ieee \<lparr>game = TicTacToe, exploration_coef = 0\<rparr> Suc
          (grid_of [[1, 2, 1], [1, 2, 2], [0, 0, 1]]) 0 3 1 = Some (Inr (store, k))"
    and c: "length store = 3" "n_visits (store ! 1) = 2" "n_visits (store ! 2) = 1"
      "parent (store ! 1) = Some 0" "parent (store ! 2) = Some 0"
    by blast
  have pl: "\<forall>pid s' k'. playout (game \<lparr>game = one_move_game, exploration_coef = 0\<rparr>) Suc pid s' k'
              \<noteq> None"
    by (simp add: one_move_playout)
  show ?thesis
    using r c pl
      run_visit_counts[of ieee "\<lparr>game = TicTacToe, exploration_coef = 0\<rparr>" Suc
        "grid_of [[1, 2, 1], [1, 2, 2], [0, 0, 1]]" 0 3 1]
      run_visit_counts[of ieee "\<lparr>game = one_move_game, exploration_coef = 0\<rparr>" Suc "()" 0 5 1]
    by auto
qed


section \<open>Terminal nodes\<close>

lemma terminal_expansion:
  "terminal (store ! i) \<Longrightarrow> expansion self rnd store i pid k = Inr (store, i, k)"
  by (simp add: expansion_def)

lemma terminal_evaluate:
  "terminal node \<Longrightarrow> evaluate fl self rnd node nrs k = Some (Inr (terminal_reward node, k))"
  by (simp add: evaluate_def)

text \<open>
  C4. In every tree that \<^verbatim>\<open>run\<close> returns, a terminal node has no children and no
  actions; expansion leaves the store as it is and gives the node itself as the node to
  evaluate, and its evaluation is its \<open>terminal_reward\<close>, for any number of simulations and
  without a draw from the oracle, so that no simulation runs. In the next iteration on
  such a tree, if the node evaluated is terminal, the value that backpropagation receives
  is its \<open>terminal_reward\<close>.
\<close>

theorem terminal_nodes:
  assumes "run fl self rnd s p n nrs = Some (Inr (store, k))"
  shows "(\<forall>i < length store. terminal (store ! i) \<longrightarrow>
            children_nodes (store ! i) = [] \<and> actions (store ! i) = []
            \<and> (\<forall>rnd' pid k'. expansion self rnd' store i pid k' = Inr (store, i, k'))
            \<and> (\<forall>fl' rnd' nrs' k'. evaluate fl' self rnd' (store ! i) nrs' k'
                   = Some (Inr (terminal_reward (store ! i), k'))))
       \<and> (\<forall>store2 k3. tree_iteration fl self rnd p nrs (store, k) = Some (Inr (store2, k3)) \<longrightarrow>
            (\<exists>node pid k1 store1 ntr k2 r.
                forward_pass fl self rnd store 0 p k = Some (Inr (node, pid, k1))
              \<and> expansion self rnd store node pid k1 = Inr (store1, ntr, k2)
              \<and> evaluate fl self rnd (store1 ! ntr) nrs k2 = Some (Inr (r, k3))
              \<and> backprop fl store1 r (Some ntr) = Some store2
              \<and> (terminal (store ! node) \<longrightarrow> store1 = store \<and> ntr = node)
              \<and> (terminal (store1 ! ntr) \<longrightarrow> r = terminal_reward (store1 ! ntr) \<and> k3 = k2)))"
proof (intro conjI allI impI)
  note inv = run_inv[OF assms]
  have tl: "terminal_leaf store" and lo: "lists_ok store"
    using inv(1) by (simp_all add: wf_store_def)
  fix i assume i: "i < length store" and t: "terminal (store ! i)"
  show c: "children_nodes (store ! i) = []" using tl i t by (simp add: terminal_leaf_def)
  show "actions (store ! i) = []" using lo i c by (auto simp add: lists_ok_def)
  show "\<And>rnd' pid k'. expansion self rnd' store i pid k' = Inr (store, i, k')"
    using t by (simp add: terminal_expansion)
  show "\<And>fl' rnd' nrs' k'. evaluate fl' self rnd' (store ! i) nrs' k'
                   = Some (Inr (terminal_reward (store ! i), k'))"
    using t by (simp add: terminal_evaluate)
next
  fix store2 k3
  assume it: "tree_iteration fl self rnd p nrs (store, k) = Some (Inr (store2, k3))"
  from tree_iteration_steps[OF it] obtain node pid k1 store1 ntr k2 r where
    st: "forward_pass fl self rnd store 0 p k = Some (Inr (node, pid, k1))"
      "expansion self rnd store node pid k1 = Inr (store1, ntr, k2)"
      "evaluate fl self rnd (store1 ! ntr) nrs k2 = Some (Inr (r, k3))"
      "backprop fl store1 r (Some ntr) = Some store2"
    by auto
  have a: "terminal (store ! node) \<longrightarrow> store1 = store \<and> ntr = node"
    using st(2) by (auto simp add: terminal_expansion)
  have b: "terminal (store1 ! ntr) \<longrightarrow> r = terminal_reward (store1 ! ntr) \<and> k3 = k2"
    using st(3) by (auto simp add: terminal_evaluate)
  show "\<exists>node pid k1 store1 ntr k2 r.
                forward_pass fl self rnd store 0 p k = Some (Inr (node, pid, k1))
              \<and> expansion self rnd store node pid k1 = Inr (store1, ntr, k2)
              \<and> evaluate fl self rnd (store1 ! ntr) nrs k2 = Some (Inr (r, k3))
              \<and> backprop fl store1 r (Some ntr) = Some store2
              \<and> (terminal (store ! node) \<longrightarrow> store1 = store \<and> ntr = node)
              \<and> (terminal (store1 ! ntr) \<longrightarrow> r = terminal_reward (store1 ! ntr) \<and> k3 = k2)"
    using st a b by blast
qed

theorem terminal_nodes_witness:
  "\<exists>store k. run ieee \<lparr>game = TicTacToe, exploration_coef = 0\<rparr> Suc
                 (grid_of [[1, 2, 1], [1, 2, 2], [0, 0, 1]]) 0 2 1 = Some (Inr (store, k))
     \<and> terminal (store ! 1) \<and> terminal_reward (store ! 1) = 1 \<and> n_visits (store ! 1) = 1
     \<and> children_nodes (store ! 1) = []
     \<and> evaluate ieee \<lparr>game = TicTacToe, exploration_coef = 0\<rparr> Suc (store ! 1) 7 k
         = Some (Inr (1, k))
     \<and> (\<exists>store2. tree_iteration ieee \<lparr>game = TicTacToe, exploration_coef = 0\<rparr> Suc 0 1 (store, k)
                    = Some (Inr (store2, Suc k))
            \<and> accumulated_value (store2 ! 1) = - 2 \<and> n_visits (store2 ! 1) = 2)"
proof -
  have "\<exists>store k. run ieee \<lparr>game = TicTacToe, exploration_coef = 0\<rparr> Suc
                 (grid_of [[1, 2, 1], [1, 2, 2], [0, 0, 1]]) 0 2 1 = Some (Inr (store, k))
     \<and> length store = 3
     \<and> terminal (store ! 1) \<and> terminal_reward (store ! 1) = 1 \<and> n_visits (store ! 1) = 1
     \<and> (\<exists>store2. tree_iteration ieee \<lparr>game = TicTacToe, exploration_coef = 0\<rparr> Suc 0 1 (store, k)
                    = Some (Inr (store2, Suc k))
            \<and> accumulated_value (store2 ! 1) = - 2 \<and> n_visits (store2 ! 1) = 2)"
    by (simp add: run_eval)
  then obtain store k where
    r: "run ieee \<lparr>game = TicTacToe, exploration_coef = 0\<rparr> Suc
          (grid_of [[1, 2, 1], [1, 2, 2], [0, 0, 1]]) 0 2 1 = Some (Inr (store, k))"
    and c: "length store = 3" "terminal (store ! 1)" "terminal_reward (store ! 1) = 1"
      "n_visits (store ! 1) = 1"
      "\<exists>store2. tree_iteration ieee \<lparr>game = TicTacToe, exploration_coef = 0\<rparr> Suc 0 1 (store, k)
                    = Some (Inr (store2, Suc k))
            \<and> accumulated_value (store2 ! 1) = - 2 \<and> n_visits (store2 ! 1) = 2"
    by blast
  have "1 < length store" using c(1) by simp
  then show ?thesis
    using r c terminal_nodes[OF r] by (intro exI[of _ store] exI[of _ k]) simp
qed

section \<open>The final action choice\<close>

lemma child_values_zero_mem:
  "c \<in> set cs \<Longrightarrow> n_visits (store ! c) = 0 \<Longrightarrow>
   child_values fl store cs = Inl ZeroDivisionError"
  by (induction cs) auto

lemma child_values_zero:
  "\<exists>c \<in> set cs. n_visits (store ! c) = 0 \<Longrightarrow>
   child_values fl store cs = Inl ZeroDivisionError"
  using child_values_zero_mem by blast

lemma child_values_visited:
  "\<forall>c \<in> set cs. n_visits (store ! c) \<noteq> 0 \<Longrightarrow>
   child_values fl store cs
     = Inr (map (\<lambda>c. fdiv fl (accumulated_value (store ! c)) (real (n_visits (store ! c)))) cs)"
  by (induction cs) auto

lemma sum_list_ge_length:
  "\<forall>x \<in> set xs. 1 \<le> f x \<Longrightarrow> length xs \<le> sum_list (map f xs :: nat list)"
  by (induction xs) auto

lemma argmin_props:
  assumes "vals \<noteq> []"
  shows "argmin vals < length vals" and "vals ! argmin vals = Min (set vals)"
    and "\<forall>j < argmin vals. vals ! j \<noteq> Min (set vals)"
proof -
  let ?best = "filter (\<lambda>j. vals ! j = min_list vals) [0..<length vals]"
  have "min_list vals \<in> set vals" using assms by (simp add: min_list_Min)
  then obtain j where "j < length vals" "vals ! j = min_list vals"
    by (auto simp: in_set_conv_nth)
  then have jb: "j \<in> set ?best" by simp
  have ne: "?best \<noteq> []"
  proof
    assume "?best = []"
    then have "set ?best = {}" by (simp only: set_empty)
    then show False using jb by simp
  qed
  then have "hd ?best \<in> set ?best" by (rule hd_in_set)
  then show "argmin vals < length vals" and "vals ! argmin vals = Min (set vals)"
    using assms by (simp_all add: argmin_def min_list_Min)
  show "\<forall>j < argmin vals. vals ! j \<noteq> Min (set vals)"
  proof (intro allI impI notI)
    fix j assume j: "j < argmin vals" and m: "vals ! j = Min (set vals)"
    have s: "sorted ?best" by (simp add: sorted_wrt_filter)
    have "j < length vals" using j \<open>argmin vals < length vals\<close> by simp
    then have "j \<in> set ?best" using m assms by (simp add: min_list_Min)
    then have "hd ?best \<le> j" using s ne
      by (metis list.collapse set_ConsD sorted_simps(2) order_refl)
    then show False using j by (simp add: argmin_def)
  qed
qed

text \<open>
  Where \<^verbatim>\<open>get_best_action\<close> returns an action, the search has returned, every child of the
  root has been visited, and the action is the one of a root child whose ratio
  \<^verbatim>\<open>accumulated_value / n_visits\<close> is the least among the children of the root.
\<close>

lemma get_best_action_min:
  assumes "get_best_action fl self rnd s p n nrs = Some (Inr a)"
  shows "\<exists>store k j. run fl self rnd s p n nrs = Some (Inr (store, k))
     \<and> j < length (children_nodes (store ! 0)) \<and> a = actions (store ! 0) ! j
     \<and> (\<forall>c \<in> set (children_nodes (store ! 0)). n_visits (store ! c) \<noteq> 0)
     \<and> (\<forall>j' < length (children_nodes (store ! 0)).
           fdiv fl (accumulated_value (store ! (children_nodes (store ! 0) ! j)))
                   (real (n_visits (store ! (children_nodes (store ! 0) ! j))))
           \<le> fdiv fl (accumulated_value (store ! (children_nodes (store ! 0) ! j')))
                   (real (n_visits (store ! (children_nodes (store ! 0) ! j')))))"
proof -
  from assms obtain store k where
    r: "run fl self rnd s p n nrs = Some (Inr (store, k))"
    and g: "(case child_values fl store (children_nodes (store ! 0)) of
             Inl e \<Rightarrow> Some (Inl e)
           | Inr scores \<Rightarrow>
               if scores = [] then Some (Inl EmptyReduction)
               else Some (Inr (actions (store ! 0) ! argmin scores))) = Some (Inr a)"
    by (auto simp add: get_best_action_def bind_result_def split: option.splits sum.splits)
  let ?cs = "children_nodes (store ! 0)"
  let ?v = "\<lambda>c. fdiv fl (accumulated_value (store ! c)) (real (n_visits (store ! c)))"
  have nz: "\<forall>c \<in> set ?cs. n_visits (store ! c) \<noteq> 0"
  proof (rule ccontr)
    assume "\<not> (\<forall>c \<in> set ?cs. n_visits (store ! c) \<noteq> 0)"
    then have "\<exists>c \<in> set ?cs. n_visits (store ! c) = 0" by simp
    then have "child_values fl store ?cs = Inl ZeroDivisionError"
      by (rule child_values_zero)
    then show False using g by simp
  qed
  then have cv: "child_values fl store ?cs = Inr (map ?v ?cs)"
    by (rule child_values_visited)
  have ne: "map ?v ?cs \<noteq> []" and a: "a = actions (store ! 0) ! argmin (map ?v ?cs)"
    using g cv by (auto split: if_splits)
  note ap = argmin_props[OF ne]
  have j: "argmin (map ?v ?cs) < length ?cs" using ap(1) by simp
  have "\<forall>j' < length ?cs. ?v (?cs ! argmin (map ?v ?cs)) \<le> ?v (?cs ! j')"
  proof (intro allI impI)
    fix j' assume j': "j' < length ?cs"
    have "j' < length (map ?v ?cs)" using j' by simp
    then have "map ?v ?cs ! j' \<in> set (map ?v ?cs)" by (rule nth_mem)
    then have "Min (set (map ?v ?cs)) \<le> map ?v ?cs ! j'" by simp
    then show "?v (?cs ! argmin (map ?v ?cs)) \<le> ?v (?cs ! j')"
      using ap(2) j j' by simp
  qed
  then show ?thesis using r j a nz by blast
qed

text \<open>
  C5. \<^verbatim>\<open>get_best_action\<close> does not return the action of a root child of least ratio for
  every state with a legal action and every positive budget. On the board
  \<^verbatim>\<open>[[1, 2, 1], [1, 2, 2], [0, 0, 1]]\<close> with player 0 to move there are two legal actions;
  with one tree iteration and one rollout simulation the search visits one child of the
  root only, and the ratio of the other child is \<^verbatim>\<open>0 / 0\<close>: \<^verbatim>\<open>get_best_action\<close> raises
  \<^verbatim>\<open>ZeroDivisionError\<close> and returns no action. The division at src/MCTS.py:180 has no
  guard, whereas \<^verbatim>\<open>select_child_node_ucb\<close>, \<^verbatim>\<open>_build_label\<close> and \<^verbatim>\<open>dump_tree_to_file\<close>
  divide by \<^verbatim>\<open>n_visits\<close> only after testing it.
\<close>

theorem get_best_action_unvisited_child:
  "length (get_possible_actions TicTacToe 0 (grid_of [[1, 2, 1], [1, 2, 2], [0, 0, 1]])) = 2
   \<and> get_best_action ieee \<lparr>game = TicTacToe, exploration_coef = 1\<rparr> Suc
         (grid_of [[1, 2, 1], [1, 2, 2], [0, 0, 1]]) 0 1 1
       = Some (Inl ZeroDivisionError)"
  by (simp add: run_eval)

text \<open>
  C6, as the code has it. If the search returns and any child of the root has
  \<^verbatim>\<open>n_visits = 0\<close>, then \<^verbatim>\<open>get_best_action\<close> divides by zero and raises
  \<^verbatim>\<open>ZeroDivisionError\<close> instead of returning an action; and whenever the search returns
  with a budget that is positive and smaller than the number of legal actions at the root,
  there is such a child. The budget has to be positive: with budget 0 the root is never
  expanded and has no child at all.
\<close>

theorem get_best_action_zero_division:
  assumes "run fl self rnd s p n nrs = Some (Inr (store, k))"
  shows "((\<exists>c \<in> set (children_nodes (store ! 0)). n_visits (store ! c) = 0) \<longrightarrow>
            get_best_action fl self rnd s p n nrs = Some (Inl ZeroDivisionError))
       \<and> (0 < n \<and> n < length (get_possible_actions (game self) p s) \<longrightarrow>
            (\<exists>c \<in> set (children_nodes (store ! 0)). n_visits (store ! c) = 0))"
proof (intro conjI impI)
  assume "\<exists>c \<in> set (children_nodes (store ! 0)). n_visits (store ! c) = 0"
  then have "child_values fl store (children_nodes (store ! 0)) = Inl ZeroDivisionError"
    by (rule child_values_zero)
  then show "get_best_action fl self rnd s p n nrs = Some (Inl ZeroDivisionError)"
    using assms by (simp add: get_best_action_def bind_result_def)
next
  assume n: "0 < n \<and> n < length (get_possible_actions (game self) p s)"
  note inv = run_inv[OF assms]
  let ?cs = "children_nodes (store ! 0)"
  have ne: "?cs \<noteq> []" using inv(2,3) n by (auto simp add: root_inv_def)
  then have len: "length ?cs = length (get_possible_actions (game self) p s)"
    using inv(2) by (simp add: root_inv_def)
  have sm: "sum_list (map (\<lambda>c. n_visits (store ! c)) ?cs) \<le> n"
    using inv(2,3) by (simp add: root_inv_def)
  show "\<exists>c \<in> set ?cs. n_visits (store ! c) = 0"
  proof (rule ccontr)
    assume "\<not> (\<exists>c \<in> set ?cs. n_visits (store ! c) = 0)"
    then have "\<forall>c \<in> set ?cs. 1 \<le> n_visits (store ! c)" by (simp add: Suc_le_eq)
    then have "length ?cs \<le> sum_list (map (\<lambda>c. n_visits (store ! c)) ?cs)"
      by (rule sum_list_ge_length)
    then show False using sm len n by simp
  qed
qed

text \<open>
  On the board \<^verbatim>\<open>[[1, 2, 1], [2, 2, 1], [0, 1, 0]]\<close> with player 0 to move, budget 1 and
  the draw 1, the search visits the second child of the root and leaves the first
  unvisited.
\<close>

theorem get_best_action_zero_division_witness:
  "\<exists>store k.
     run ieee \<lparr>game = TicTacToe, exploration_coef = 1\<rparr> Suc
         (grid_of [[1, 2, 1], [2, 2, 1], [0, 1, 0]]) 0 1 1 = Some (Inr (store, k))
     \<and> children_nodes (store ! 0) = [1, 2]
     \<and> n_visits (store ! 1) = 0 \<and> n_visits (store ! 2) = 1
     \<and> (0::nat) < 1
     \<and> 1 < length (get_possible_actions TicTacToe 0 (grid_of [[1, 2, 1], [2, 2, 1], [0, 1, 0]]))
     \<and> get_best_action ieee \<lparr>game = TicTacToe, exploration_coef = 1\<rparr> Suc
         (grid_of [[1, 2, 1], [2, 2, 1], [0, 1, 0]]) 0 1 1 = Some (Inl ZeroDivisionError)"
proof -
  have "\<exists>store k.
     run ieee \<lparr>game = TicTacToe, exploration_coef = 1\<rparr> Suc
         (grid_of [[1, 2, 1], [2, 2, 1], [0, 1, 0]]) 0 1 1 = Some (Inr (store, k))
     \<and> children_nodes (store ! 0) = [1, 2]
     \<and> n_visits (store ! 1) = 0 \<and> n_visits (store ! 2) = 1"
    by (simp add: run_eval)
  then obtain store k where
    r: "run ieee \<lparr>game = TicTacToe, exploration_coef = 1\<rparr> Suc
         (grid_of [[1, 2, 1], [2, 2, 1], [0, 1, 0]]) 0 1 1 = Some (Inr (store, k))"
    and c: "children_nodes (store ! 0) = [1, 2]"
    and v: "n_visits (store ! 1) = 0" "n_visits (store ! 2) = 1"
    by blast
  have l: "1 < length (get_possible_actions TicTacToe 0 (grid_of [[1, 2, 1], [2, 2, 1], [0, 1, 0]]))"
    by (simp add: run_eval)
  have z: "\<exists>c \<in> set (children_nodes (store ! 0)). n_visits (store ! c) = 0"
    using c v by simp
  have "get_best_action ieee \<lparr>game = TicTacToe, exploration_coef = 1\<rparr> Suc
         (grid_of [[1, 2, 1], [2, 2, 1], [0, 1, 0]]) 0 1 1 = Some (Inl ZeroDivisionError)"
    using get_best_action_zero_division [OF r] z by blast
  then show ?thesis using r c v l by simp
qed

text \<open>
  The claim as the specification words it fails for budget 0: on the same board there are
  legal actions, so the budget is smaller than their number, but the root has no children
  and \<^verbatim>\<open>get_best_action\<close> fails in \<^verbatim>\<open>argmin\<close> of the empty array, with no division by
  zero.
\<close>

theorem get_best_action_budget_zero:
  "0 < length (get_possible_actions TicTacToe 0 (grid_of [[1, 2, 1], [2, 2, 1], [0, 1, 0]]))
   \<and> get_best_action ieee \<lparr>game = TicTacToe, exploration_coef = 1\<rparr> Suc
         (grid_of [[1, 2, 1], [2, 2, 1], [0, 1, 0]]) 0 0 1
       = Some (Inl EmptyReduction)"
  by (simp add: run_eval)

text \<open>
  A state for which the game gives no legal action: with a positive budget the first
  expansion draws from the empty list of children, with budget 0 the final choice takes
  \<^verbatim>\<open>argmin\<close> of the empty array.
\<close>

lemma get_best_action_no_actions:
  assumes "get_possible_actions (game self) p s = []"
  shows "get_best_action fl self rnd s p n nrs
         = Some (Inl (if n = 0 then EmptyReduction else EmptyChoice))"
proof (cases n)
  case 0
  then show ?thesis
    by (simp add: get_best_action_def run_def bind_result_def new_node_def)
next
  case (Suc m)
  have "tree_iteration fl self rnd p nrs ([new_node s p None False 0], 0)
        = Some (Inl EmptyChoice)"
    using assms
    by (simp add: tree_iteration_def forward_pass.simps new_node_def expansion_def
        random_choice_def bind_result_def)
  then show ?thesis using Suc
    by (simp add: get_best_action_def run_def bind_result_def)
qed

text \<open>
  C7. \<^verbatim>\<open>get_best_action\<close> on a state with no legal action raises no explicit condition
  that says so. On the full board \<^verbatim>\<open>[[1, 2, 1], [1, 2, 2], [2, 1, 1]]\<close> the game gives no
  action; with budget 1 the error is the \<^verbatim>\<open>ValueError\<close> of \<^verbatim>\<open>np.random.choice\<close> on the
  empty list of children in the expansion (src/MCTS.py:129), and with budget 0 the
  \<^verbatim>\<open>ValueError\<close> of \<^verbatim>\<open>argmin\<close> on the empty array (src/MCTS.py:183). Only \<^verbatim>\<open>rollout\<close>
  tests for the empty list of actions and raises an assertion error that names it.
\<close>

theorem get_best_action_full_board:
  "get_possible_actions TicTacToe 0 (grid_of [[1, 2, 1], [1, 2, 2], [2, 1, 1]]) = []
   \<and> get_best_action ieee \<lparr>game = TicTacToe, exploration_coef = 1\<rparr> Suc
         (grid_of [[1, 2, 1], [1, 2, 2], [2, 1, 1]]) 0 1 1
       = Some (Inl EmptyChoice)
   \<and> get_best_action ieee \<lparr>game = TicTacToe, exploration_coef = 1\<rparr> Suc
         (grid_of [[1, 2, 1], [1, 2, 2], [2, 1, 1]]) 0 0 1
       = Some (Inl EmptyReduction)"
  by (simp add: run_eval)

end
